theory Spec2Isabelle
  imports Main
begin

section \<open>Swarm Algorithm of Thoughts: the optimizer of \<^verbatim>\<open>src/app.py\<close>\<close>

subsection \<open>Scores\<close>

text \<open>
  A score is whatever \<^verbatim>\<open>heuristic\<close> returns and \<^verbatim>\<open>score < self.global_best_score\<close> can
  compare with \<^verbatim>\<open>float('inf')\<close>: a value of a totally ordered domain \<open>'s\<close> (Python's
  integers at type \<open>int\<close>), or positive infinity, which lies above every such value.
  The order is the numeric one; not-a-number values of floating point are outside of it.
\<close>

datatype 's score = Fin 's | PInf

instantiation score :: (linorder) linorder
begin

fun less_eq_score :: "'a score \<Rightarrow> 'a score \<Rightarrow> bool" where
  "less_eq_score (Fin a) (Fin b) = (a \<le> b)"
| "less_eq_score (Fin a) PInf = True"
| "less_eq_score PInf (Fin b) = False"
| "less_eq_score PInf PInf = True"

fun less_score :: "'a score \<Rightarrow> 'a score \<Rightarrow> bool" where
  "less_score (Fin a) (Fin b) = (a < b)"
| "less_score (Fin a) PInf = True"
| "less_score PInf (Fin b) = False"
| "less_score PInf PInf = False"

instance
proof
  fix x y z :: "'a score"
  show "(x < y) = (x \<le> y \<and> \<not> y \<le> x)"
    by (cases x; cases y) auto
  show "x \<le> x"
    by (cases x) auto
  show "x \<le> y \<Longrightarrow> y \<le> z \<Longrightarrow> x \<le> z"
    by (cases x; cases y; cases z) auto
  show "x \<le> y \<Longrightarrow> y \<le> x \<Longrightarrow> x = y"
    by (cases x; cases y) auto
  show "x \<le> y \<or> y \<le> x"
    by (cases x; cases y) auto
qed

end

subsection \<open>Errors, events and the optimizer object\<close>

text \<open>
  \<^verbatim>\<open>random.choice\<close> raises \<^verbatim>\<open>IndexError\<close> on an empty sequence; \<^verbatim>\<open>heuristic\<close> and
  \<^verbatim>\<open>update_fn\<close> are the caller's and may raise anything (\<open>Raised\<close> with the exception's
  text). The class has no \<^verbatim>\<open>try\<close>: every exception leaves \<^verbatim>\<open>optimize\<close> at once.
\<close>

datatype error = IndexError | Raised string

text \<open>
  What a run does besides changing the object, in the order it happens:
  \<open>Evaluated i a p s\<close>: in iteration \<open>i\<close>, \<^verbatim>\<open>heuristic(position)\<close> returned \<open>s\<close> for the
  position \<open>p\<close> of agent \<open>a\<close> (line 65);
  \<open>Notified i a s\<close>: the line printed at line 71;
  \<open>Moved i a p q\<close>: \<^verbatim>\<open>update_fn(position, problem_space)\<close> returned \<open>q\<close> for \<open>p\<close> and it
  was stored in \<^verbatim>\<open>self.swarm[agent_idx]\<close> (line 74).
\<close>

datatype ('p, 's) event =
    Evaluated nat nat 'p "'s score"
  | Notified nat nat "'s score"
  | Moved nat nat 'p 'p

text \<open>
  The fields of \<^verbatim>\<open>SwarmAoT.__init__\<close>. The problem space is a sequence (what
  \<^verbatim>\<open>random.choice\<close> takes); \<^verbatim>\<open>global_best = None\<close> is \<open>None\<close>.
\<close>

record ('p, 's) SwarmAoT =
  num_agents :: int
  problem_space :: "'p list"
  heuristic :: "'p \<Rightarrow> error + 's score"
  update_fn :: "'p \<Rightarrow> 'p list \<Rightarrow> error + 'p"
  swarm :: "'p list"
  global_best :: "'p option"
  global_best_score :: "'s score"

text \<open>The object together with everything the run has done so far.\<close>

type_synonym ('p, 's) world = "('p, 's) SwarmAoT \<times> ('p, 's) event list"

subsection \<open>Construction\<close>

text \<open>
  \<^verbatim>\<open>random.choice(seq)\<close> is \<^verbatim>\<open>seq[self._randbelow(len(seq))]\<close>, and raises
  \<^verbatim>\<open>IndexError\<close> when \<^verbatim>\<open>seq\<close> is empty. The generator is explicit: \<open>r\<close> is the raw
  number it delivers for this call, reduced below the length.
\<close>

definition choice :: "nat \<Rightarrow> 'p list \<Rightarrow> error + 'p" where
  "choice r seq = (if seq = [] then Inl IndexError else Inr (seq ! (r mod length seq)))"

text \<open>
  The list comprehension of \<^verbatim>\<open>_initialize_swarm\<close>, over the indices of
  \<^verbatim>\<open>range(self.num_agents)\<close>; \<open>draws k\<close> is the generator's number for the \<open>k\<close>-th call.
\<close>

fun comprehension :: "(nat \<Rightarrow> nat) \<Rightarrow> 'p list \<Rightarrow> nat list \<Rightarrow> error + 'p list" where
  "comprehension draws space [] = Inr []"
| "comprehension draws space (k # ks) =
     (case choice (draws k) space of
        Inl e \<Rightarrow> Inl e
      | Inr x \<Rightarrow>
          (case comprehension draws space ks of
             Inl e \<Rightarrow> Inl e
           | Inr xs \<Rightarrow> Inr (x # xs)))"

definition initialize_swarm :: "int \<Rightarrow> 'p list \<Rightarrow> (nat \<Rightarrow> nat) \<Rightarrow> error + 'p list" where
  "initialize_swarm n space draws = comprehension draws space [0 ..< nat n]"

definition SwarmAoT_init ::
  "int \<Rightarrow> 'p list \<Rightarrow> ('p \<Rightarrow> error + 's score) \<Rightarrow> ('p \<Rightarrow> 'p list \<Rightarrow> error + 'p) \<Rightarrow>
   (nat \<Rightarrow> nat) \<Rightarrow> error + ('p, 's) SwarmAoT" where
  "SwarmAoT_init n space h u draws =
     (case initialize_swarm n space draws of
        Inl e \<Rightarrow> Inl e
      | Inr sw \<Rightarrow>
          Inr \<lparr> num_agents = n, problem_space = space, heuristic = h, update_fn = u,
                swarm = sw, global_best = None, global_best_score = PInf \<rparr>)"

subsection \<open>The loop of \<^verbatim>\<open>optimize\<close>\<close>

text \<open>
  The body of the inner loop (lines 64 to 74) for one agent. An exception of
  \<^verbatim>\<open>heuristic\<close> leaves the object as it was; an exception of \<^verbatim>\<open>update_fn\<close> comes after
  lines 68 to 71 have run.
\<close>

fun agent_step :: "nat \<Rightarrow> nat \<Rightarrow> ('p, 's::linorder) world \<Rightarrow> error option \<times> ('p, 's) world" where
  "agent_step iteration agent_idx (self, log) =
     (let position = swarm self ! agent_idx in
      case heuristic self position of
        Inl e \<Rightarrow> (Some e, (self, log))
      | Inr score \<Rightarrow>
          (let (self1, log1) =
                 (if score < global_best_score self
                  then (self\<lparr>global_best := Some position, global_best_score := score\<rparr>,
                        log @ [Evaluated iteration agent_idx position score,
                               Notified iteration agent_idx score])
                  else (self, log @ [Evaluated iteration agent_idx position score]))
           in case update_fn self1 position (problem_space self1) of
                Inl e \<Rightarrow> (Some e, (self1, log1))
              | Inr new_position \<Rightarrow>
                  (None, (self1\<lparr>swarm := (swarm self1)[agent_idx := new_position]\<rparr>,
                          log1 @ [Moved iteration agent_idx position new_position]))))"

lemma agent_step_length:
  "agent_step iteration agent_idx w = (r, w') \<Longrightarrow>
   length (swarm (fst w')) = length (swarm (fst w))"
  by (cases w) (auto simp: Let_def split: sum.splits if_splits)

text \<open>
  \<^verbatim>\<open>for agent_idx, position in enumerate(self.swarm)\<close>: the iterator reads the list as
  it is when it reaches index \<open>agent_idx\<close>, and stops when the index is no longer below
  the list's length.
\<close>

function agents_loop :: "nat \<Rightarrow> nat \<Rightarrow> ('p, 's::linorder) world \<Rightarrow> error option \<times> ('p, 's) world" where
  "agents_loop iteration agent_idx (self, log) =
     (if agent_idx < length (swarm self)
      then (case agent_step iteration agent_idx (self, log) of
              (Some e, w) \<Rightarrow> (Some e, w)
            | (None, w) \<Rightarrow> agents_loop iteration (Suc agent_idx) w)
      else (None, (self, log)))"
  by pat_completeness auto
termination
proof (relation "measure (\<lambda>(iteration, agent_idx, w). length (swarm (fst w)) - agent_idx)",
    goal_cases)
  case 1
  show ?case by simp
next
  case (2 iteration agent_idx self log r w)
  from 2(2) have "length (swarm (fst w)) = length (swarm (fst (self, log)))"
    by (rule agent_step_length [OF sym])
  with 2(1) show ?case
    by simp
qed

text \<open>\<^verbatim>\<open>for iteration in range(iterations)\<close>, over the numbers of the range.\<close>

fun rounds :: "nat list \<Rightarrow> ('p, 's::linorder) world \<Rightarrow> error option \<times> ('p, 's) world" where
  "rounds [] w = (None, w)"
| "rounds (iteration # rest) w =
     (case agents_loop iteration 0 w of
        (Some e, w') \<Rightarrow> (Some e, w')
      | (None, w') \<Rightarrow> rounds rest w')"

text \<open>
  \<^verbatim>\<open>optimize(iterations)\<close>: the result is the exception, or the pair of line 76; the
  object and the log are what they are when the call ends, either way.
  \<^verbatim>\<open>range(iterations)\<close> is empty for \<^verbatim>\<open>iterations <= 0\<close>.
\<close>

definition optimize ::
  "('p, 's::linorder) world \<Rightarrow> int \<Rightarrow> (error + ('p option \<times> 's score)) \<times> ('p, 's) world" where
  "optimize w iterations =
     (case rounds [0 ..< nat iterations] w of
        (Some e, w') \<Rightarrow> (Inl e, w')
      | (None, w') \<Rightarrow> (Inr (global_best (fst w'), global_best_score (fst w')), w'))"

subsection \<open>What a run has done: reading the log\<close>

text \<open>The heuristic evaluations of a log, in the order they were made.\<close>

fun evaluations :: "('p, 's) event list \<Rightarrow> (nat \<times> nat \<times> 'p \<times> 's score) list" where
  "evaluations [] = []"
| "evaluations (Evaluated i a p s # es) = (i, a, p, s) # evaluations es"
| "evaluations (Notified i a s # es) = evaluations es"
| "evaluations (Moved i a p q # es) = evaluations es"

text \<open>The lines printed at line 71, in the order they were printed.\<close>

fun notifications :: "('p, 's) event list \<Rightarrow> (nat \<times> nat \<times> 's score) list" where
  "notifications [] = []"
| "notifications (Evaluated i a p s # es) = notifications es"
| "notifications (Notified i a s # es) = (i, a, s) # notifications es"
| "notifications (Moved i a p q # es) = notifications es"

text \<open>The evaluated positions with their scores.\<close>

definition seen :: "('p, 's) event list \<Rightarrow> ('p \<times> 's score) list" where
  "seen log = map (\<lambda>(i, a, p, s). (p, s)) (evaluations log)"

text \<open>The iteration and agent index of each evaluation.\<close>

definition visited :: "('p, 's) event list \<Rightarrow> (nat \<times> nat) list" where
  "visited log = map (\<lambda>(i, a, p, s). (i, a)) (evaluations log)"

subsection \<open>The run as one sequence of steps\<close>

text \<open>
  The two nested loops visit the pairs of an iteration and an agent index in
  lexicographic order. \<open>steps_run\<close> runs the loop body over a given list of such pairs
  and stops at the first exception; \<open>all_steps\<close> lists the pairs of a whole call.
  Lemmas \<open>agents_loop_flat\<close> and \<open>rounds_flat\<close> below show that the loops of the
  source are \<open>steps_run\<close> over \<open>all_steps\<close>.
\<close>

fun steps_run :: "(nat \<times> nat) list \<Rightarrow> ('p, 's::linorder) world \<Rightarrow> error option \<times> ('p, 's) world" where
  "steps_run [] w = (None, w)"
| "steps_run ((iteration, agent_idx) # rest) w =
     (case agent_step iteration agent_idx w of
        (Some e, w') \<Rightarrow> (Some e, w')
      | (None, w') \<Rightarrow> steps_run rest w')"

definition all_steps :: "nat list \<Rightarrow> nat \<Rightarrow> (nat \<times> nat) list" where
  "all_steps its n = List.product its [0 ..< n]"

text \<open>
  The running best as a function of the evaluations alone: what lines 68 to 70 make
  of a best \<open>b\<close> when the positions and scores \<open>es\<close> are seen one after the other.
\<close>

fun track :: "'p option \<times> 's::linorder score \<Rightarrow> ('p \<times> 's score) list \<Rightarrow> 'p option \<times> 's score" where
  "track b [] = b"
| "track b ((p, s) # es) = track (if s < snd b then (Some p, s) else b) es"

text \<open>
  The best position and its score belong together: either no position is held and the
  score is infinite, or the heuristic gives the held score at the held position.
\<close>

definition consistent :: "('p, 's::linorder) SwarmAoT \<Rightarrow> bool" where
  "consistent self =
     (case global_best self of
        None \<Rightarrow> global_best_score self = PInf
      | Some p \<Rightarrow> heuristic self p = Inr (global_best_score self) \<and> global_best_score self < PInf)"

text \<open>
  Two optimizer objects are alike on a set \<open>P\<close> of positions when they hold the same swarm,
  the same best position and score and the same problem space, the swarm lies in \<open>P\<close>, and
  on \<open>P\<close> their heuristics and update functions give the same results, the update
  function's results lying in \<open>P\<close> again. The functions may differ outside \<open>P\<close>, and the
  field \<open>num_agents\<close> is free.
\<close>

definition alike :: "'p set \<Rightarrow> ('p, 's) SwarmAoT \<Rightarrow> ('p, 's) SwarmAoT \<Rightarrow> bool" where
  "alike P s1 s2 =
     (swarm s1 = swarm s2 \<and> global_best s1 = global_best s2 \<and>
      global_best_score s1 = global_best_score s2 \<and>
      problem_space s1 = problem_space s2 \<and> set (swarm s1) \<subseteq> P \<and>
      (\<forall>p \<in> P. heuristic s1 p = heuristic s2 p \<and>
         update_fn s1 p (problem_space s1) = update_fn s2 p (problem_space s2) \<and>
         (\<forall>q. update_fn s1 p (problem_space s1) = Inr q \<longrightarrow> q \<in> P)))"

subsection \<open>Example optimizers\<close>

text \<open>
  A small optimizer for the examples below: two agents at 7 and 4, the score of a position
  is the position, and every update moves an agent one down.
\<close>

abbreviation descent :: "(int, int) SwarmAoT" where
  "descent \<equiv> \<lparr> num_agents = 2, problem_space = [7, 4], heuristic = (\<lambda>x. Inr (Fin x)),
      update_fn = (\<lambda>x _. Inr (x - 1)), swarm = [7, 4], global_best = None,
      global_best_score = PInf \<rparr>"

text \<open>
  Three agents at 5, -3 and 3 that never move; the score of a position is its absolute
  value, so that agents 1 and 2 tie.
\<close>

abbreviation tie :: "(int, int) SwarmAoT" where
  "tie \<equiv> \<lparr> num_agents = 3, problem_space = [5, - 3, 3], heuristic = (\<lambda>x. Inr (Fin \<bar>x\<bar>)),
      update_fn = (\<lambda>x _. Inr x), swarm = [5, - 3, 3], global_best = None,
      global_best_score = PInf \<rparr>"

text \<open>The optimizer \<open>descent\<close> with an update function that always raises.\<close>

abbreviation brittle :: "(int, int) SwarmAoT" where
  "brittle \<equiv> \<lparr> num_agents = 2, problem_space = [7, 4], heuristic = (\<lambda>x. Inr (Fin x)),
      update_fn = (\<lambda>x _. Inl (Raised ''stuck'')), swarm = [7, 4], global_best = None,
      global_best_score = PInf \<rparr>"

text \<open>The optimizer \<open>descent\<close> with a heuristic that raises below 5.\<close>

abbreviation picky :: "(int, int) SwarmAoT" where
  "picky \<equiv> \<lparr> num_agents = 2, problem_space = [7, 4],
      heuristic = (\<lambda>x. if x < 5 then Inl (Raised ''low'') else Inr (Fin x)),
      update_fn = (\<lambda>x _. Inr (x - 1)), swarm = [7, 4], global_best = None,
      global_best_score = PInf \<rparr>"

text \<open>
  Two agents at 7 and 4 that move one up with every update, so that after the first round
  no position scores as low as the best one found in it.
\<close>

abbreviation ascent :: "(int, int) SwarmAoT" where
  "ascent \<equiv> \<lparr> num_agents = 2, problem_space = [7, 4], heuristic = (\<lambda>x. Inr (Fin x)),
      update_fn = (\<lambda>x _. Inr (x + 1)), swarm = [7, 4], global_best = None,
      global_best_score = PInf \<rparr>"

text \<open>The optimizer \<open>descent\<close> with a heuristic that raises above 7, where no agent goes.\<close>

abbreviation wary :: "(int, int) SwarmAoT" where
  "wary \<equiv> \<lparr> num_agents = 2, problem_space = [7, 4],
      heuristic = (\<lambda>x. if x \<le> 7 then Inr (Fin x) else Inl (Raised ''high'')),
      update_fn = (\<lambda>x _. Inr (x - 1)), swarm = [7, 4], global_best = None,
      global_best_score = PInf \<rparr>"

section \<open>Properties of the loop\<close>

lemma evaluations_append [simp]: "evaluations (xs @ ys) = evaluations xs @ evaluations ys"
  by (induction xs rule: evaluations.induct) auto

lemma notifications_append [simp]: "notifications (xs @ ys) = notifications xs @ notifications ys"
  by (induction xs rule: notifications.induct) auto

lemma steps_run_append:
  "steps_run (xs @ ys) w =
     (case steps_run xs w of (Some e, w') \<Rightarrow> (Some e, w') | (None, w') \<Rightarrow> steps_run ys w')"
  by (induction xs arbitrary: w) (auto split: prod.splits option.splits)

lemma steps_run_length:
  "steps_run sts w = (r, w') \<Longrightarrow> length (swarm (fst w')) = length (swarm (fst w))"
proof (induction sts arbitrary: w)
  case Nil
  then show ?case by simp
next
  case (Cons st sts)
  obtain i a where st: "st = (i, a)" by (cases st)
  obtain r1 w1 where s1: "agent_step i a w = (r1, w1)" by (cases "agent_step i a w")
  note len1 = agent_step_length [OF s1]
  show ?case
  proof (cases r1)
    case None
    with Cons.prems st s1 have "steps_run sts w1 = (r, w')" by simp
    from Cons.IH [OF this] len1 show ?thesis by simp
  next
    case (Some e)
    with Cons.prems st s1 have "w' = w1" by simp
    with len1 show ?thesis by simp
  qed
qed

lemma agents_loop_flat:
  "agents_loop iteration agent_idx w =
     steps_run (map (Pair iteration) [agent_idx ..< length (swarm (fst w))]) w"
proof (induction iteration agent_idx w rule: agents_loop.induct)
  case (1 iteration agent_idx self log)
  show ?case
  proof (cases "agent_idx < length (swarm self)")
    case False
    then show ?thesis by simp
  next
    case True
    obtain r1 w1 where s1: "agent_step iteration agent_idx (self, log) = (r1, w1)"
      by (cases "agent_step iteration agent_idx (self, log)")
    from agent_step_length [OF s1] have len1: "length (swarm (fst w1)) = length (swarm self)"
      by simp
    from True have upt: "[agent_idx ..< length (swarm self)] =
        agent_idx # [Suc agent_idx ..< length (swarm self)]"
      by (rule upt_conv_Cons)
    show ?thesis
    proof (cases r1)
      case (Some e)
      with True s1 upt show ?thesis
        by (simp del: agent_step.simps)
    next
      case None
      from "1.IH" [OF True s1 [symmetric] None] len1
      have "agents_loop iteration (Suc agent_idx) w1 =
          steps_run (map (Pair iteration) [Suc agent_idx ..< length (swarm self)]) w1"
        by simp
      with True s1 None upt show ?thesis
        by (simp del: agent_step.simps)
    qed
  qed
qed

lemma rounds_flat:
  "rounds its w = steps_run (all_steps its (length (swarm (fst w)))) w"
proof (induction its arbitrary: w)
  case Nil
  then show ?case by (simp add: all_steps_def)
next
  case (Cons i its)
  let ?n = "length (swarm (fst w))"
  obtain r1 w1 where s1: "steps_run (map (Pair i) [0 ..< ?n]) w = (r1, w1)"
    by (cases "steps_run (map (Pair i) [0 ..< ?n]) w")
  from steps_run_length [OF s1] have len1: "length (swarm (fst w1)) = ?n" .
  have split: "all_steps (i # its) ?n = map (Pair i) [0 ..< ?n] @ all_steps its ?n"
    by (simp add: all_steps_def)
  show ?case
  proof (cases r1)
    case (Some e)
    with s1 show ?thesis
      by (simp add: split steps_run_append agents_loop_flat)
  next
    case None
    with s1 Cons.IH [of w1] len1 show ?thesis
      by (simp add: split steps_run_append agents_loop_flat)
  qed
qed

lemma agent_step_static:
  "agent_step iteration agent_idx w = (r, w') \<Longrightarrow>
   heuristic (fst w') = heuristic (fst w) \<and> update_fn (fst w') = update_fn (fst w) \<and>
   problem_space (fst w') = problem_space (fst w) \<and> num_agents (fst w') = num_agents (fst w)"
  by (cases w) (auto simp: Let_def split: sum.splits if_splits)

lemma agent_step_mono:
  "agent_step iteration agent_idx w = (r, w') \<Longrightarrow>
   global_best_score (fst w') \<le> global_best_score (fst w)"
  by (cases w) (auto simp: Let_def split: sum.splits if_splits)

lemma track_append: "track b (xs @ ys) = track (track b xs) ys"
  by (induction xs arbitrary: b) auto

lemma seen_append [simp]: "seen (xs @ ys) = seen xs @ seen ys"
  by (simp add: seen_def)

lemma agent_step_track:
  assumes "agent_step iteration agent_idx (self, log) = (r, (self', log'))"
  shows "\<exists>new. log' = log @ new \<and>
     (global_best self', global_best_score self') =
       track (global_best self, global_best_score self) (seen new)"
  using assms
  by (auto simp: Let_def seen_def split: sum.splits if_splits)

lemma steps_run_track:
  "steps_run sts (self, log) = (r, (self', log')) \<Longrightarrow>
   \<exists>new. log' = log @ new \<and>
     (global_best self', global_best_score self') =
       track (global_best self, global_best_score self) (seen new)"
proof (induction sts arbitrary: self log)
  case Nil
  then show ?case by (simp add: seen_def)
next
  case (Cons st sts)
  obtain i a where st: "st = (i, a)" by (cases st)
  obtain r1 self1 log1 where s1: "agent_step i a (self, log) = (r1, (self1, log1))"
    by (cases "agent_step i a (self, log)") auto
  from agent_step_track [OF s1] obtain new1 where
    n1: "log1 = log @ new1"
    and t1: "(global_best self1, global_best_score self1) =
       track (global_best self, global_best_score self) (seen new1)"
    by blast
  show ?case
  proof (cases r1)
    case (Some e)
    with Cons.prems st s1 have "self' = self1" "log' = log1"
      by (simp_all del: agent_step.simps)
    with n1 t1 show ?thesis by blast
  next
    case None
    with Cons.prems st s1 have "steps_run sts (self1, log1) = (r, (self', log'))"
      by (simp del: agent_step.simps)
    from Cons.IH [OF this] obtain new2 where
      n2: "log' = log1 @ new2"
      and t2: "(global_best self', global_best_score self') =
         track (global_best self1, global_best_score self1) (seen new2)"
      by blast
    from n1 n2 have "log' = log @ (new1 @ new2)" by simp
    moreover from t1 t2 have "(global_best self', global_best_score self') =
       track (global_best self, global_best_score self) (seen (new1 @ new2))"
      by (simp add: track_append)
    ultimately show ?thesis by blast
  qed
qed

lemma track_fold: "snd (track b es) = fold min (map snd es) (snd b)"
proof (induction es arbitrary: b)
  case Nil
  then show ?case by simp
next
  case (Cons e es)
  obtain p s where e: "e = (p, s)" by (cases e)
  show ?case
  proof (cases "s < snd b")
    case True
    then have "min s (snd b) = s" by simp
    with True e Cons.IH [of "(Some p, s)"] show ?thesis by simp
  next
    case False
    then have "min s (snd b) = snd b" by simp
    with False e Cons.IH [of b] show ?thesis by simp
  qed
qed

lemma track_score: "snd (track b es) = Min (insert (snd b) (set (map snd es)))"
proof -
  have "Min (set (snd b # map snd es)) = fold min (map snd es) (snd b)"
    by (rule Min.set_eq_fold)
  then show ?thesis
    by (simp add: track_fold)
qed

lemma steps_run_mono:
  "steps_run sts w = (r, w') \<Longrightarrow> global_best_score (fst w') \<le> global_best_score (fst w)"
proof (induction sts arbitrary: w)
  case Nil
  then show ?case by simp
next
  case (Cons st sts)
  obtain i a where st: "st = (i, a)" by (cases st)
  obtain r1 w1 where s1: "agent_step i a w = (r1, w1)" by (cases "agent_step i a w")
  note m1 = agent_step_mono [OF s1]
  show ?case
  proof (cases r1)
    case None
    with Cons.prems st s1 have "steps_run sts w1 = (r, w')" by simp
    from Cons.IH [OF this] m1 show ?thesis by simp
  next
    case (Some e)
    with Cons.prems st s1 have "w' = w1" by simp
    with m1 show ?thesis by simp
  qed
qed

lemma steps_run_static:
  "steps_run sts w = (r, w') \<Longrightarrow>
   heuristic (fst w') = heuristic (fst w) \<and> update_fn (fst w') = update_fn (fst w) \<and>
   problem_space (fst w') = problem_space (fst w) \<and> num_agents (fst w') = num_agents (fst w)"
proof (induction sts arbitrary: w)
  case Nil
  then show ?case by simp
next
  case (Cons st sts)
  obtain i a where st: "st = (i, a)" by (cases st)
  obtain r1 w1 where s1: "agent_step i a w = (r1, w1)" by (cases "agent_step i a w")
  note f1 = agent_step_static [OF s1]
  show ?case
  proof (cases r1)
    case None
    with Cons.prems st s1 have "steps_run sts w1 = (r, w')" by simp
    from Cons.IH [OF this] f1 show ?thesis by simp
  next
    case (Some e)
    with Cons.prems st s1 have "w' = w1" by simp
    with f1 show ?thesis by simp
  qed
qed

lemma rounds_append:
  "rounds (xs @ ys) w =
     (case rounds xs w of (Some e, w') \<Rightarrow> (Some e, w') | (None, w') \<Rightarrow> rounds ys w')"
  by (induction xs arbitrary: w) (auto split: prod.splits option.splits)

lemma optimize_state: "snd (optimize w k) = snd (rounds [0 ..< nat k] w)"
  by (simp add: optimize_def split: prod.splits option.splits)

lemma optimize_flat:
  "snd (optimize w k) = snd (steps_run (all_steps [0 ..< nat k] (length (swarm (fst w)))) w)"
  by (simp add: optimize_state rounds_flat)

lemma rounds_mono:
  "global_best_score (fst (snd (rounds its w))) \<le> global_best_score (fst w)"
proof -
  obtain r w' where "steps_run (all_steps its (length (swarm (fst w)))) w = (r, w')"
    by (cases "steps_run (all_steps its (length (swarm (fst w)))) w")
  then show ?thesis
    using steps_run_mono [of _ w r w'] by (simp add: rounds_flat)
qed

lemma optimize_zero_any:
  "optimize w 0 = (Inr (global_best (fst w), global_best_score (fst w)), w)"
  by (simp add: optimize_def)

lemma init_fresh:
  "SwarmAoT_init n space h u draws = Inr self \<Longrightarrow>
   global_best self = None \<and> global_best_score self = PInf \<and> heuristic self = h \<and>
   update_fn self = u \<and> problem_space self = space \<and> num_agents self = n"
  by (auto simp: SwarmAoT_init_def split: sum.splits)

lemma comprehension_length:
  "comprehension draws space ks = Inr xs \<Longrightarrow> length xs = length ks"
  by (induction ks arbitrary: xs) (auto split: sum.splits)

lemma init_length:
  "SwarmAoT_init n space h u draws = Inr self \<Longrightarrow> length (swarm self) = nat n"
  by (auto simp: SwarmAoT_init_def initialize_swarm_def split: sum.splits
      dest: comprehension_length)

lemma descent_init:
  "SwarmAoT_init 2 [7, 4] (\<lambda>x. Inr (Fin x)) (\<lambda>x _. Inr (x - 1)) (\<lambda>k. k) = Inr descent"
  by (simp add: SwarmAoT_init_def initialize_swarm_def choice_def upt_conv_Cons)

lemma descent_run:
  "optimize (descent, []) 2 =
     (Inr (Some 3, Fin 3),
      descent\<lparr>swarm := [5, 2], global_best := Some 3, global_best_score := Fin 3\<rparr>,
      [Evaluated 0 0 7 (Fin 7), Notified 0 0 (Fin 7), Moved 0 0 7 6,
       Evaluated 0 1 4 (Fin 4), Notified 0 1 (Fin 4), Moved 0 1 4 3,
       Evaluated 1 0 6 (Fin 6), Moved 1 0 6 5,
       Evaluated 1 1 3 (Fin 3), Notified 1 1 (Fin 3), Moved 1 1 3 2])"
  by (simp add: optimize_def Let_def upt_conv_Cons)

lemma less_PInf: "(s < PInf) = (s \<noteq> PInf)"
  by (cases s) auto

lemma agent_step_consistent:
  "agent_step iteration agent_idx w = (r, w') \<Longrightarrow> consistent (fst w) \<Longrightarrow> consistent (fst w')"
proof (cases w)
  case (Pair self log)
  assume step: "agent_step iteration agent_idx w = (r, w')" and c: "consistent (fst w)"
  have lt: "\<And>s. s < global_best_score self \<Longrightarrow> s < PInf"
    by (metis less_PInf not_less_iff_gr_or_eq)
  from step c Pair show ?thesis
    by (auto simp: Let_def consistent_def lt split: sum.splits if_splits option.splits)
qed

lemma steps_run_consistent:
  "steps_run sts w = (r, w') \<Longrightarrow> consistent (fst w) \<Longrightarrow> consistent (fst w')"
proof (induction sts arbitrary: w)
  case Nil
  then show ?case by simp
next
  case (Cons st sts)
  obtain i a where st: "st = (i, a)" by (cases st)
  obtain r1 w1 where s1: "agent_step i a w = (r1, w1)" by (cases "agent_step i a w")
  from agent_step_consistent [OF s1 Cons.prems(2)] have c1: "consistent (fst w1)" .
  show ?case
  proof (cases r1)
    case None
    with Cons.prems st s1 have "steps_run sts w1 = (r, w')" by simp
    from Cons.IH [OF this c1] show ?thesis .
  next
    case (Some e)
    with Cons.prems st s1 have "w' = w1" by simp
    with c1 show ?thesis by simp
  qed
qed

lemma optimize_consistent:
  assumes "consistent (fst w)"
  shows "consistent (fst (snd (optimize w k)))"
proof -
  obtain r w' where run: "steps_run (all_steps [0 ..< nat k] (length (swarm (fst w)))) w = (r, w')"
    by (cases "steps_run (all_steps [0 ..< nat k] (length (swarm (fst w)))) w")
  from steps_run_consistent [OF run assms] run show ?thesis
    by (simp add: optimize_flat)
qed

lemma optimize_static:
  "heuristic (fst (snd (optimize w k))) = heuristic (fst w) \<and>
   update_fn (fst (snd (optimize w k))) = update_fn (fst w) \<and>
   problem_space (fst (snd (optimize w k))) = problem_space (fst w) \<and>
   num_agents (fst (snd (optimize w k))) = num_agents (fst w)"
proof -
  obtain r w' where run: "steps_run (all_steps [0 ..< nat k] (length (swarm (fst w)))) w = (r, w')"
    by (cases "steps_run (all_steps [0 ..< nat k] (length (swarm (fst w)))) w")
  from steps_run_static [OF run] run show ?thesis
    by (simp add: optimize_flat)
qed

lemma optimize_length:
  "length (swarm (fst (snd (optimize w k)))) = length (swarm (fst w))"
proof -
  obtain r w' where run: "steps_run (all_steps [0 ..< nat k] (length (swarm (fst w)))) w = (r, w')"
    by (cases "steps_run (all_steps [0 ..< nat k] (length (swarm (fst w)))) w")
  from steps_run_length [OF run] run show ?thesis
    by (simp add: optimize_flat)
qed

lemma agents_loop_length:
  "length (swarm (fst (snd (agents_loop iteration agent_idx w)))) = length (swarm (fst w))"
proof -
  let ?sts = "map (Pair iteration) [agent_idx ..< length (swarm (fst w))]"
  obtain r w' where run: "steps_run ?sts w = (r, w')"
    by (cases "steps_run ?sts w")
  from steps_run_length [OF run] run show ?thesis
    by (simp add: agents_loop_flat)
qed

lemma comprehension_cong:
  "\<forall>k \<in> set ks. draws1 k mod length space = draws2 k mod length space \<Longrightarrow>
   comprehension draws1 space ks = comprehension draws2 space ks"
  by (induction ks) (auto simp: choice_def split: sum.splits)

lemma visited_append [simp]: "visited (xs @ ys) = visited xs @ visited ys"
  by (simp add: visited_def)

lemma agent_step_ok:
  assumes "agent_step iteration agent_idx (self, log) = (None, (self', log'))"
  shows "\<exists>sc q. heuristic self (swarm self ! agent_idx) = Inr sc \<and>
     update_fn self (swarm self ! agent_idx) (problem_space self) = Inr q \<and>
     self' = self\<lparr>global_best := (if sc < global_best_score self
                                    then Some (swarm self ! agent_idx) else global_best self),
                  global_best_score := (if sc < global_best_score self
                                    then sc else global_best_score self),
                  swarm := (swarm self)[agent_idx := q]\<rparr> \<and>
     log' = log @ Evaluated iteration agent_idx (swarm self ! agent_idx) sc #
              (if sc < global_best_score self then [Notified iteration agent_idx sc] else []) @
              [Moved iteration agent_idx (swarm self ! agent_idx) q]"
  using assms
  by (auto simp: Let_def split: sum.splits if_splits)

lemma agent_step_error:
  assumes "agent_step iteration agent_idx (self, log) = (Some e, (self', log'))"
  shows "(heuristic self (swarm self ! agent_idx) = Inl e \<and> self' = self \<and> log' = log) \<or>
     (\<exists>sc. heuristic self (swarm self ! agent_idx) = Inr sc \<and>
        update_fn self (swarm self ! agent_idx) (problem_space self) = Inl e \<and>
        self' = self\<lparr>global_best := (if sc < global_best_score self
                                    then Some (swarm self ! agent_idx) else global_best self),
                  global_best_score := (if sc < global_best_score self
                                    then sc else global_best_score self)\<rparr> \<and>
        log' = log @ Evaluated iteration agent_idx (swarm self ! agent_idx) sc #
              (if sc < global_best_score self then [Notified iteration agent_idx sc] else []))"
  using assms
  by (auto simp: Let_def split: sum.splits if_splits)

lemma agent_step_visited:
  assumes "agent_step iteration agent_idx (self, log) = (None, (self', log'))"
  shows "\<exists>new. log' = log @ new \<and> visited new = [(iteration, agent_idx)]"
  using agent_step_ok [OF assms] by (auto simp: visited_def)

lemma steps_run_visited:
  "steps_run sts (self, log) = (None, (self', log')) \<Longrightarrow>
   \<exists>new. log' = log @ new \<and> visited new = sts"
proof (induction sts arbitrary: self log)
  case Nil
  then show ?case by (simp add: visited_def)
next
  case (Cons st sts)
  obtain i a where st: "st = (i, a)" by (cases st)
  obtain r1 self1 log1 where s1: "agent_step i a (self, log) = (r1, (self1, log1))"
    by (cases "agent_step i a (self, log)") auto
  show ?case
  proof (cases r1)
    case (Some e)
    with Cons.prems st s1 show ?thesis by (simp del: agent_step.simps)
  next
    case None
    with s1 have s1': "agent_step i a (self, log) = (None, (self1, log1))" by simp
    from agent_step_visited [OF s1'] obtain new1 where
      n1: "log1 = log @ new1" and v1: "visited new1 = [(i, a)]" by blast
    from Cons.prems st s1' have "steps_run sts (self1, log1) = (None, (self', log'))"
      by (simp del: agent_step.simps)
    from Cons.IH [OF this] obtain new2 where
      n2: "log' = log1 @ new2" and v2: "visited new2 = sts" by blast
    from n1 n2 have "log' = log @ (new1 @ new2)" by simp
    moreover from v1 v2 st have "visited (new1 @ new2) = st # sts" by simp
    ultimately show ?thesis by blast
  qed
qed

lemma steps_run_error:
  "steps_run sts w = (Some e, w') \<Longrightarrow>
   \<exists>pre i a post w1. sts = pre @ (i, a) # post \<and> steps_run pre w = (None, w1) \<and>
      agent_step i a w1 = (Some e, w')"
proof (induction sts arbitrary: w)
  case Nil
  then show ?case by simp
next
  case (Cons st sts)
  obtain i a where st: "st = (i, a)" by (cases st)
  obtain r1 w1 where s1: "agent_step i a w = (r1, w1)" by (cases "agent_step i a w")
  show ?case
  proof (cases r1)
    case (Some e1)
    with Cons.prems st s1 have "e1 = e" "w1 = w'" by simp_all
    with Some s1 st have "st # sts = [] @ (i, a) # sts \<and> steps_run [] w = (None, w) \<and>
        agent_step i a w = (Some e, w')"
      by simp
    then show ?thesis by blast
  next
    case None
    with Cons.prems st s1 have "steps_run sts w1 = (Some e, w')" by simp
    from Cons.IH [OF this] obtain pre j b post w2 where
      sp: "sts = pre @ (j, b) # post" and r: "steps_run pre w1 = (None, w2)"
      and f: "agent_step j b w2 = (Some e, w')"
      by blast
    from sp st have "st # sts = ((i, a) # pre) @ (j, b) # post" by simp
    moreover from r s1 None have "steps_run ((i, a) # pre) w = (None, w2)" by simp
    ultimately show ?thesis using f by blast
  qed
qed

lemma track_lower: "\<forall>x \<in> set es. snd (track b es) \<le> snd x"
proof
  fix x
  assume "x \<in> set es"
  then have "snd x \<in> insert (snd b) (set (map snd es))" by simp
  then have "Min (insert (snd b) (set (map snd es))) \<le> snd x"
    by (intro Min_le) simp_all
  then show "snd (track b es) \<le> snd x" by (simp only: track_score)
qed

lemma track_le_start: "snd (track b es) \<le> snd b"
proof -
  have "Min (insert (snd b) (set (map snd es))) \<le> snd b"
    by (intro Min_le) simp_all
  then show ?thesis by (simp only: track_score)
qed

lemma track_unchanged: "\<not> snd (track b es) < snd b \<Longrightarrow> track b es = b"
proof (induction es arbitrary: b)
  case Nil
  then show ?case by simp
next
  case (Cons e es)
  obtain p s where e: "e = (p, s)" by (cases e)
  have le: "snd (track (Some p, s) es) \<le> s"
    using track_le_start [of "(Some p, s)" es] by simp
  show ?case
  proof (cases "s < snd b")
    case True
    with e have "snd (track b (e # es)) = snd (track (Some p, s) es)" by simp
    with le True have "snd (track b (e # es)) < snd b" by simp
    with Cons.prems show ?thesis by simp
  next
    case False
    with e Cons.prems Cons.IH [of b] show ?thesis by simp
  qed
qed

lemma track_first:
  "snd (track b es) < snd b \<Longrightarrow>
   \<exists>pre p post. es = pre @ (p, snd (track b es)) # post \<and>
      (\<forall>e \<in> set pre. snd (track b es) < snd e) \<and>
      (\<forall>e \<in> set post. snd (track b es) \<le> snd e) \<and>
      fst (track b es) = Some p"
proof (induction es arbitrary: b)
  case Nil
  then show ?case by simp
next
  case (Cons e es)
  obtain p s where e: "e = (p, s)" by (cases e)
  let ?m = "snd (track b (e # es))"
  have low: "\<forall>x \<in> set (e # es). ?m \<le> snd x"
    by (rule track_lower)
  show ?case
  proof (cases "s < snd b")
    case True
    with e have eq: "track b (e # es) = track (Some p, s) es" by simp
    show ?thesis
    proof (cases "snd (track (Some p, s) es) < s")
      case True
      with Cons.IH [of "(Some p, s)"] obtain pre p' post where
        sp: "es = pre @ (p', snd (track (Some p, s) es)) # post"
        and a: "\<forall>x \<in> set pre. snd (track (Some p, s) es) < snd x"
        and f: "fst (track (Some p, s) es) = Some p'"
        by auto
      from sp e eq have 1: "e # es = (e # pre) @ (p', ?m) # post" by simp
      from a True e eq have 2: "\<forall>x \<in> set (e # pre). ?m < snd x" by simp
      from low 1 have 3: "\<forall>x \<in> set post. ?m \<le> snd x"
        by (metis Un_iff list.set_intros(2) set_append)
      from f eq have 4: "fst (track b (e # es)) = Some p'" by simp
      from 1 2 3 4 show ?thesis by blast
    next
      case False
      then have "track (Some p, s) es = (Some p, s)"
        using track_unchanged [of "(Some p, s)" es] by simp
      with eq have t: "track b (e # es) = (Some p, s)" by simp
      with e have 1: "e # es = [] @ (p, ?m) # es" by simp
      from low have 3: "\<forall>x \<in> set es. ?m \<le> snd x" by simp
      from t have 4: "fst (track b (e # es)) = Some p" by simp
      have 2: "\<forall>x \<in> set []. ?m < snd x" by simp
      from 1 2 3 4 show ?thesis by blast
    qed
  next
    case False
    with e have eq: "track b (e # es) = track b es" by simp
    with Cons.prems have lt: "snd (track b es) < snd b" by simp
    from Cons.IH [OF lt] obtain pre p' post where
      sp: "es = pre @ (p', snd (track b es)) # post"
      and a: "\<forall>x \<in> set pre. snd (track b es) < snd x"
      and f: "fst (track b es) = Some p'"
      by auto
    from sp eq have 1: "e # es = (e # pre) @ (p', ?m) # post" by simp
    from False lt have "snd (track b es) < s" by simp
    with a e eq have 2: "\<forall>x \<in> set (e # pre). ?m < snd x" by simp
    from low 1 have 3: "\<forall>x \<in> set post. ?m \<le> snd x"
      by (metis Un_iff list.set_intros(2) set_append)
    from f eq have 4: "fst (track b (e # es)) = Some p'" by simp
    from 1 2 3 4 show ?thesis by blast
  qed
qed

lemma score_le_PInf [simp]: "s \<le> PInf"
  by (cases s) auto

lemma optimize_returns:
  assumes "optimize (self, log) k = (Inr (best, sc), (self', log'))"
  shows "steps_run (all_steps [0 ..< nat k] (length (swarm self))) (self, log) =
           (None, (self', log')) \<and>
         best = global_best self' \<and> sc = global_best_score self'"
  using assms
  by (auto simp: optimize_def rounds_flat split: prod.splits option.splits)

lemma optimize_raises:
  "optimize (self, log) k = (Inl e, w') \<longleftrightarrow>
   steps_run (all_steps [0 ..< nat k] (length (swarm self))) (self, log) = (Some e, w')"
  by (auto simp: optimize_def rounds_flat split: prod.splits option.splits)

lemma length_all_steps: "length (all_steps its n) = length its * n"
  by (simp add: all_steps_def)

lemma length_visited: "length (visited log) = length (evaluations log)"
  by (simp add: visited_def)

lemma optimize_score_general:
  assumes "optimize (self, log) k = (Inr (best, sc), (self', log'))"
  shows "\<exists>new. log' = log @ new \<and>
     sc = Min (insert (global_best_score self) (set (map snd (seen new)))) \<and>
     visited new = all_steps [0 ..< nat k] (length (swarm self))"
proof -
  let ?sts = "all_steps [0 ..< nat k] (length (swarm self))"
  from optimize_returns [OF assms] have run: "steps_run ?sts (self, log) = (None, (self', log'))"
    and sc: "sc = global_best_score self'"
    by simp_all
  from steps_run_track [OF run] obtain new where
    n: "log' = log @ new"
    and t: "(global_best self', global_best_score self') =
       track (global_best self, global_best_score self) (seen new)"
    by blast
  from steps_run_visited [OF run] n have v: "visited new = ?sts" by auto
  from t have "global_best_score self' =
      snd (track (global_best self, global_best_score self) (seen new))"
    by (metis snd_conv)
  then have "sc = Min (insert (global_best_score self) (set (map snd (seen new))))"
    using sc by (simp add: track_score)
  with n v show ?thesis by blast
qed

lemma agent_step_best:
  assumes "agent_step iteration agent_idx (self, log) = (r, (self', log'))"
    and "heuristic self (swarm self ! agent_idx) = Inr sc"
  shows "(global_best self', global_best_score self') =
     (if sc < global_best_score self then (Some (swarm self ! agent_idx), sc)
      else (global_best self, global_best_score self))"
  using assms
  by (auto simp: Let_def split: sum.splits if_splits)

lemma agents_loop_round:
  "agents_loop iteration agent_idx w = (None, w') \<Longrightarrow>
   \<exists>new. snd w' = snd w @ new \<and>
     map fst (seen new) = drop agent_idx (swarm (fst w)) \<and>
     take agent_idx (swarm (fst w')) = take agent_idx (swarm (fst w)) \<and>
     list_all2 (\<lambda>p q. update_fn (fst w) p (problem_space (fst w)) = Inr q)
       (drop agent_idx (swarm (fst w))) (drop agent_idx (swarm (fst w')))"
proof (induction iteration agent_idx w arbitrary: w' rule: agents_loop.induct)
  case (1 iteration agent_idx self log)
  let ?R = "\<lambda>p q. update_fn self p (problem_space self) = Inr q"
  show ?case
  proof (cases "agent_idx < length (swarm self)")
    case False
    with "1.prems" have "w' = (self, log)" by simp
    with False show ?thesis by (simp add: seen_def)
  next
    case True
    obtain r1 w1 where s1: "agent_step iteration agent_idx (self, log) = (r1, w1)"
      by (cases "agent_step iteration agent_idx (self, log)")
    from True s1 "1.prems" have r1: "r1 = None"
      by (cases r1) (simp_all del: agent_step.simps)
    from True s1 r1 "1.prems" have rest: "agents_loop iteration (Suc agent_idx) w1 = (None, w')"
      by (simp del: agent_step.simps)
    obtain self1 log1 where w1: "w1 = (self1, log1)" by (cases w1)
    from s1 r1 w1 have "agent_step iteration agent_idx (self, log) = (None, (self1, log1))"
      by simp
    from agent_step_ok [OF this] obtain sc q where
      upd: "update_fn self (swarm self ! agent_idx) (problem_space self) = Inr q"
      and sw1: "swarm self1 = (swarm self)[agent_idx := q]"
      and st1: "update_fn self1 = update_fn self" "problem_space self1 = problem_space self"
      and l1: "log1 = log @ Evaluated iteration agent_idx (swarm self ! agent_idx) sc #
              (if sc < global_best_score self then [Notified iteration agent_idx sc] else []) @
              [Moved iteration agent_idx (swarm self ! agent_idx) q]"
      by auto
    from "1.IH" [OF True s1 [symmetric] r1 rest] w1 obtain new2 where
      n2: "snd w' = log1 @ new2"
      and p2: "map fst (seen new2) = drop (Suc agent_idx) (swarm self1)"
      and t2: "take (Suc agent_idx) (swarm (fst w')) = take (Suc agent_idx) (swarm self1)"
      and a2: "list_all2 (\<lambda>p q. update_fn self1 p (problem_space self1) = Inr q)
         (drop (Suc agent_idx) (swarm self1)) (drop (Suc agent_idx) (swarm (fst w')))"
      by auto
    let ?ev1 = "Evaluated iteration agent_idx (swarm self ! agent_idx) sc #
              (if sc < global_best_score self then [Notified iteration agent_idx sc] else []) @
              [Moved iteration agent_idx (swarm self ! agent_idx) q]"
    have d1: "drop (Suc agent_idx) (swarm self1) = drop (Suc agent_idx) (swarm self)"
      by (simp add: sw1)
    have ds: "drop agent_idx (swarm self) =
        swarm self ! agent_idx # drop (Suc agent_idx) (swarm self)"
      using True by (simp add: Cons_nth_drop_Suc)
    from agents_loop_length [of iteration "Suc agent_idx" w1] rest w1 sw1
    have len': "length (swarm (fst w')) = length (swarm self)"
      by simp
    with True have ds': "drop agent_idx (swarm (fst w')) =
        swarm (fst w') ! agent_idx # drop (Suc agent_idx) (swarm (fst w'))"
      by (simp add: Cons_nth_drop_Suc)
    have "swarm (fst w') ! agent_idx = take (Suc agent_idx) (swarm (fst w')) ! agent_idx"
      by simp
    also have "\<dots> = take (Suc agent_idx) (swarm self1) ! agent_idx"
      by (simp only: t2)
    also have "\<dots> = q"
      using True by (simp add: sw1)
    finally have q: "swarm (fst w') ! agent_idx = q" .
    have a: "snd w' = log @ (?ev1 @ new2)"
      using n2 l1 by simp
    have b: "map fst (seen (?ev1 @ new2)) = drop agent_idx (swarm self)"
      using p2 d1 ds by (simp add: seen_def)
    have "take agent_idx (swarm (fst w')) =
        take agent_idx (take (Suc agent_idx) (swarm (fst w')))"
      by (simp add: min_def)
    also have "\<dots> = take agent_idx (take (Suc agent_idx) (swarm self1))"
      by (simp only: t2)
    also have "\<dots> = take agent_idx (swarm self)"
      by (simp add: sw1 min_def)
    finally have c: "take agent_idx (swarm (fst w')) = take agent_idx (swarm self)" .
    from a2 st1 d1 have "list_all2 ?R (drop (Suc agent_idx) (swarm self))
        (drop (Suc agent_idx) (swarm (fst w')))"
      by simp
    with upd q have d: "list_all2 ?R (drop agent_idx (swarm self)) (drop agent_idx (swarm (fst w')))"
      by (subst ds, subst ds') simp
    from a b c d show ?thesis
      by (intro exI [of _ "?ev1 @ new2"]) simp
  qed
qed

lemma tie_run:
  "optimize (tie, []) 2 =
     (Inr (Some (- 3), Fin 3),
      tie\<lparr>global_best := Some (- 3), global_best_score := Fin 3\<rparr>,
      [] @ [Evaluated 0 0 5 (Fin 5), Notified 0 0 (Fin 5), Moved 0 0 5 5,
       Evaluated 0 1 (- 3) (Fin 3), Notified 0 1 (Fin 3), Moved 0 1 (- 3) (- 3),
       Evaluated 0 2 3 (Fin 3), Moved 0 2 3 3,
       Evaluated 1 0 5 (Fin 5), Moved 1 0 5 5,
       Evaluated 1 1 (- 3) (Fin 3), Moved 1 1 (- 3) (- 3),
       Evaluated 1 2 3 (Fin 3), Moved 1 2 3 3])"
  by (simp add: optimize_def Let_def upt_conv_Cons)

lemma descent_round:
  "agents_loop 0 0 (descent, []) =
     (None, (descent\<lparr>swarm := [6, 3], global_best := Some 4, global_best_score := Fin 4\<rparr>,
             [] @ [Evaluated 0 0 7 (Fin 7), Notified 0 0 (Fin 7), Moved 0 0 7 6,
              Evaluated 0 1 4 (Fin 4), Notified 0 1 (Fin 4), Moved 0 1 4 3]))"
  by (simp add: Let_def)

lemma picky_before:
  "steps_run [(0, 0)] (picky, []) =
     (None, (picky\<lparr>swarm := [6, 4], global_best := Some 7, global_best_score := Fin 7\<rparr>,
             [Evaluated 0 0 7 (Fin 7), Notified 0 0 (Fin 7), Moved 0 0 7 6]))"
  by (simp add: Let_def)

lemma ascent_init:
  "SwarmAoT_init 2 [7, 4] (\<lambda>x. Inr (Fin x)) (\<lambda>x _. Inr (x + 1)) (\<lambda>k. k) = Inr ascent"
  by (simp add: SwarmAoT_init_def initialize_swarm_def choice_def upt_conv_Cons)

lemma ascent_first_call:
  "optimize (ascent, []) 1 =
     (Inr (Some 4, Fin 4),
      ascent\<lparr>swarm := [8, 5], global_best := Some 4, global_best_score := Fin 4\<rparr>,
      [Evaluated 0 0 7 (Fin 7), Notified 0 0 (Fin 7), Moved 0 0 7 8,
       Evaluated 0 1 4 (Fin 4), Notified 0 1 (Fin 4), Moved 0 1 4 5])"
  by (simp add: optimize_def Let_def upt_conv_Cons)

lemma ascent_second_call:
  "optimize (ascent\<lparr>swarm := [8, 5], global_best := Some 4, global_best_score := Fin 4\<rparr>,
      [Evaluated 0 0 7 (Fin 7), Notified 0 0 (Fin 7), Moved 0 0 7 8,
       Evaluated 0 1 4 (Fin 4), Notified 0 1 (Fin 4), Moved 0 1 4 5]) 1 =
     (Inr (Some 4, Fin 4),
      ascent\<lparr>swarm := [9, 6], global_best := Some 4, global_best_score := Fin 4\<rparr>,
      [Evaluated 0 0 7 (Fin 7), Notified 0 0 (Fin 7), Moved 0 0 7 8,
       Evaluated 0 1 4 (Fin 4), Notified 0 1 (Fin 4), Moved 0 1 4 5] @
      [Evaluated 0 0 8 (Fin 8), Moved 0 0 8 9, Evaluated 0 1 5 (Fin 5), Moved 0 1 5 6])"
  by (simp add: optimize_def Let_def upt_conv_Cons)

lemma Min_with_PInf:
  assumes "S \<noteq> {}" and "finite S"
  shows "Min (insert PInf S) = Min S"
proof -
  from assms have "Min (insert PInf S) = min PInf (Min S)" by (simp add: Min_insert)
  also have "\<dots> = Min S" by (rule min_absorb2) (rule score_le_PInf)
  finally show ?thesis .
qed

lemma agent_step_returns:
  assumes "heuristic self (swarm self ! agent_idx) = Inr sc"
    and "update_fn self (swarm self ! agent_idx) (problem_space self) = Inr q"
  shows "agent_step iteration agent_idx (self, log) =
     (None,
      (self\<lparr>global_best := (if sc < global_best_score self
                              then Some (swarm self ! agent_idx) else global_best self),
             global_best_score := (if sc < global_best_score self
                              then sc else global_best_score self),
             swarm := (swarm self)[agent_idx := q]\<rparr>,
       log @ Evaluated iteration agent_idx (swarm self ! agent_idx) sc #
         (if sc < global_best_score self then [Notified iteration agent_idx sc] else []) @
         [Moved iteration agent_idx (swarm self ! agent_idx) q]))"
  using assms by (simp add: Let_def)

lemma agent_step_seen:
  assumes "agent_step iteration agent_idx (self, log) = (r, (self', log'))"
  shows "\<exists>new. log' = log @ new \<and> (\<forall>e \<in> set (seen new). heuristic self (fst e) = Inr (snd e))"
  using assms
  by (auto simp: Let_def seen_def split: sum.splits if_splits)

lemma steps_run_seen:
  "steps_run sts (self, log) = (r, (self', log')) \<Longrightarrow>
   \<exists>new. log' = log @ new \<and> (\<forall>e \<in> set (seen new). heuristic self (fst e) = Inr (snd e))"
proof (induction sts arbitrary: self log)
  case Nil
  then show ?case by (simp add: seen_def)
next
  case (Cons st sts)
  obtain i a where st: "st = (i, a)" by (cases st)
  obtain r1 self1 log1 where s1: "agent_step i a (self, log) = (r1, (self1, log1))"
    by (cases "agent_step i a (self, log)") auto
  from agent_step_seen [OF s1] obtain new1 where
    n1: "log1 = log @ new1"
    and h1: "\<forall>e \<in> set (seen new1). heuristic self (fst e) = Inr (snd e)"
    by blast
  from agent_step_static [OF s1] have hs: "heuristic self1 = heuristic self" by simp
  show ?case
  proof (cases r1)
    case (Some e)
    with Cons.prems st s1 have "self' = self1" "log' = log1"
      by (simp_all del: agent_step.simps)
    with n1 h1 show ?thesis by blast
  next
    case None
    with Cons.prems st s1 have "steps_run sts (self1, log1) = (r, (self', log'))"
      by (simp del: agent_step.simps)
    from Cons.IH [OF this] hs obtain new2 where
      n2: "log' = log1 @ new2"
      and h2: "\<forall>e \<in> set (seen new2). heuristic self (fst e) = Inr (snd e)"
      by auto
    from n1 n2 have "log' = log @ (new1 @ new2)" by simp
    moreover from h1 h2 have
      "\<forall>e \<in> set (seen (new1 @ new2)). heuristic self (fst e) = Inr (snd e)"
      by auto
    ultimately show ?thesis by blast
  qed
qed

lemma agents_loop_completes:
  "\<forall>p \<in> set (drop agent_idx (swarm (fst w))).
      (\<exists>s. heuristic (fst w) p = Inr s) \<and>
      (\<exists>q. update_fn (fst w) p (problem_space (fst w)) = Inr q) \<Longrightarrow>
   fst (agents_loop iteration agent_idx w) = None"
proof (induction iteration agent_idx w rule: agents_loop.induct)
  case (1 iteration agent_idx self log)
  show ?case
  proof (cases "agent_idx < length (swarm self)")
    case False
    then show ?thesis by simp
  next
    case True
    then have "swarm self ! agent_idx \<in> set (drop agent_idx (swarm self))"
      by (simp add: Cons_nth_drop_Suc [symmetric])
    with "1.prems" obtain sc q where
      h: "heuristic self (swarm self ! agent_idx) = Inr sc"
      and u: "update_fn self (swarm self ! agent_idx) (problem_space self) = Inr q"
      by auto
    let ?s1 = "self\<lparr>global_best := (if sc < global_best_score self
                              then Some (swarm self ! agent_idx) else global_best self),
             global_best_score := (if sc < global_best_score self
                              then sc else global_best_score self),
             swarm := (swarm self)[agent_idx := q]\<rparr>"
    let ?l1 = "log @ Evaluated iteration agent_idx (swarm self ! agent_idx) sc #
         (if sc < global_best_score self then [Notified iteration agent_idx sc] else []) @
         [Moved iteration agent_idx (swarm self ! agent_idx) q]"
    from agent_step_returns [OF h u]
    have s1: "agent_step iteration agent_idx (self, log) = (None, (?s1, ?l1))" .
    have sub: "set (drop (Suc agent_idx) (swarm ?s1)) \<subseteq> set (drop agent_idx (swarm self))"
      by (simp add: set_drop_subset_set_drop)
    have "\<forall>p \<in> set (drop (Suc agent_idx) (swarm (fst (?s1, ?l1)))).
      (\<exists>s. heuristic (fst (?s1, ?l1)) p = Inr s) \<and>
      (\<exists>q. update_fn (fst (?s1, ?l1)) p (problem_space (fst (?s1, ?l1))) = Inr q)"
    proof
      fix p
      assume "p \<in> set (drop (Suc agent_idx) (swarm (fst (?s1, ?l1))))"
      with sub have "p \<in> set (drop agent_idx (swarm self))" by auto
      with "1.prems" show "(\<exists>s. heuristic (fst (?s1, ?l1)) p = Inr s) \<and>
        (\<exists>q. update_fn (fst (?s1, ?l1)) p (problem_space (fst (?s1, ?l1))) = Inr q)"
        by simp
    qed
    from "1.IH" [OF True s1 [symmetric] refl this]
    have "fst (agents_loop iteration (Suc agent_idx) (?s1, ?l1)) = None" .
    with True s1 show ?thesis
      by (simp del: agent_step.simps)
  qed
qed

lemma list_all2_map_eq:
  "list_all2 (\<lambda>p q. f p = Inr q) xs ys \<Longrightarrow> \<forall>p \<in> set xs. f p = Inr (g p) \<Longrightarrow> ys = map g xs"
  by (induction xs ys rule: list_all2_induct) auto

lemma pairs_from_fst:
  "\<forall>e \<in> set xs. snd e = f (fst e) \<Longrightarrow> xs = map (\<lambda>p. (p, f p)) (map fst xs)"
  by (induction xs) auto

lemma agents_loop_seen:
  assumes "agents_loop iteration agent_idx (self, log) = (r, (self', log @ new))"
  shows "\<forall>e \<in> set (seen new). heuristic self (fst e) = Inr (snd e)"
proof -
  from assms have "steps_run (map (Pair iteration) [agent_idx ..< length (swarm self)])
      (self, log) = (r, (self', log @ new))"
    by (simp add: agents_loop_flat)
  from steps_run_seen [OF this] show ?thesis by auto
qed

lemma agent_step_alike:
  assumes al: "alike P s1 s2" and a: "a < length (swarm s1)"
  shows "\<exists>r t1 t2 new. agent_step i a (s1, l1) = (r, (t1, l1 @ new)) \<and>
     agent_step i a (s2, l2) = (r, (t2, l2 @ new)) \<and> alike P t1 t2"
proof -
  let ?p = "swarm s1 ! a"
  from al have sw: "swarm s2 = swarm s1" and gb: "global_best s2 = global_best s1"
    and gs: "global_best_score s2 = global_best_score s1"
    and ps: "problem_space s2 = problem_space s1" and sub: "set (swarm s1) \<subseteq> P"
    by (auto simp: alike_def)
  from a sub have pP: "?p \<in> P" by auto
  with al have h: "heuristic s2 ?p = heuristic s1 ?p"
    and u: "update_fn s2 ?p (problem_space s1) = update_fn s1 ?p (problem_space s1)"
    and cl: "\<forall>q. update_fn s1 ?p (problem_space s1) = Inr q \<longrightarrow> q \<in> P"
    by (auto simp: alike_def)
  show ?thesis
  proof (cases "heuristic s1 ?p")
    case (Inl e)
    with h sw have "agent_step i a (s1, l1) = (Some e, (s1, l1 @ []))"
      and "agent_step i a (s2, l2) = (Some e, (s2, l2 @ []))"
      by (simp_all add: Let_def)
    with al show ?thesis by blast
  next
    case (Inr sc)
    let ?t1 = "s1\<lparr>global_best := (if sc < global_best_score s1 then Some ?p else global_best s1),
        global_best_score := (if sc < global_best_score s1 then sc else global_best_score s1)\<rparr>"
    let ?t2 = "s2\<lparr>global_best := (if sc < global_best_score s1 then Some ?p else global_best s1),
        global_best_score := (if sc < global_best_score s1 then sc else global_best_score s1)\<rparr>"
    let ?ev = "Evaluated i a ?p sc #
        (if sc < global_best_score s1 then [Notified i a sc] else [])"
    from al have al': "alike P ?t1 ?t2"
      by (auto simp: alike_def)
    show ?thesis
    proof (cases "update_fn s1 ?p (problem_space s1)")
      case (Inl e)
      with Inr have "agent_step i a (s1, l1) = (Some e, (?t1, l1 @ ?ev))"
        by (simp add: Let_def)
      moreover from Inl Inr h u sw gb gs ps
      have "agent_step i a (s2, l2) = (Some e, (?t2, l2 @ ?ev))"
        by (simp add: Let_def)
      ultimately show ?thesis using al' by blast
    next
      case (Inr q)
      from Inr cl have qP: "q \<in> P" by simp
      let ?u1 = "?t1\<lparr>swarm := (swarm s1)[a := q]\<rparr>"
      let ?u2 = "?t2\<lparr>swarm := (swarm s1)[a := q]\<rparr>"
      let ?ev2 = "?ev @ [Moved i a ?p q]"
      from \<open>heuristic s1 ?p = Inr sc\<close> Inr
      have 1: "agent_step i a (s1, l1) = (None, (?u1, l1 @ ?ev2))"
        by (simp add: Let_def)
      from \<open>heuristic s1 ?p = Inr sc\<close> Inr h u sw gb gs ps
      have 2: "agent_step i a (s2, l2) = (None, (?u2, l2 @ ?ev2))"
        by (simp add: Let_def)
      have "set ((swarm s1)[a := q]) \<subseteq> insert q (set (swarm s1))"
        by (rule set_update_subset_insert)
      with qP sub have "set ((swarm s1)[a := q]) \<subseteq> P" by auto
      with al have "alike P ?u1 ?u2"
        by (auto simp: alike_def)
      with 1 2 show ?thesis by blast
    qed
  qed
qed

lemma steps_run_alike:
  "alike P s1 s2 \<Longrightarrow> \<forall>st \<in> set sts. snd st < length (swarm s1) \<Longrightarrow>
   \<exists>r t1 t2 new. steps_run sts (s1, l1) = (r, (t1, l1 @ new)) \<and>
     steps_run sts (s2, l2) = (r, (t2, l2 @ new)) \<and> alike P t1 t2"
proof (induction sts arbitrary: s1 s2 l1 l2)
  case Nil
  then have "steps_run [] (s1, l1) = (None, (s1, l1 @ []))"
    and "steps_run [] (s2, l2) = (None, (s2, l2 @ []))"
    by simp_all
  with Nil.prems(1) show ?case by blast
next
  case (Cons st sts)
  obtain i a where st: "st = (i, a)" by (cases st)
  with Cons.prems(2) have a: "a < length (swarm s1)" by simp
  from agent_step_alike [OF Cons.prems(1) a, of i l1 l2] obtain r t1 t2 new1 where
    1: "agent_step i a (s1, l1) = (r, (t1, l1 @ new1))"
    and 2: "agent_step i a (s2, l2) = (r, (t2, l2 @ new1))"
    and al: "alike P t1 t2"
    by blast
  show ?case
  proof (cases r)
    case (Some e)
    with 1 2 st have "steps_run (st # sts) (s1, l1) = (Some e, (t1, l1 @ new1))"
      and "steps_run (st # sts) (s2, l2) = (Some e, (t2, l2 @ new1))"
      by (simp_all del: agent_step.simps)
    with al show ?thesis by blast
  next
    case None
    from agent_step_length [OF 1] have "length (swarm t1) = length (swarm s1)" by simp
    with Cons.prems(2) have "\<forall>st \<in> set sts. snd st < length (swarm t1)" by simp
    from Cons.IH [OF al this, of "l1 @ new1" "l2 @ new1"] obtain r' v1 v2 new2 where
      3: "steps_run sts (t1, l1 @ new1) = (r', (v1, (l1 @ new1) @ new2))"
      and 4: "steps_run sts (t2, l2 @ new1) = (r', (v2, (l2 @ new1) @ new2))"
      and al2: "alike P v1 v2"
      by blast
    from 1 3 None st have "steps_run (st # sts) (s1, l1) = (r', (v1, l1 @ (new1 @ new2)))"
      by (simp del: agent_step.simps)
    moreover from 2 4 None st
    have "steps_run (st # sts) (s2, l2) = (r', (v2, l2 @ (new1 @ new2)))"
      by (simp del: agent_step.simps)
    ultimately show ?thesis using al2 by blast
  qed
qed

lemma all_steps_in_range: "\<forall>st \<in> set (all_steps its n). snd st < n"
  by (auto simp: all_steps_def)

lemma optimize_by_steps:
  "optimize w k =
     (case steps_run (all_steps [0 ..< nat k] (length (swarm (fst w)))) w of
        (Some e, w') \<Rightarrow> (Inl e, w')
      | (None, w') \<Rightarrow> (Inr (global_best (fst w'), global_best_score (fst w')), w'))"
  by (simp add: optimize_def rounds_flat)

lemma optimize_alike:
  assumes al: "alike P s1 s2"
  shows "\<exists>res t1 t2 new. optimize (s1, l1) k = (res, (t1, l1 @ new)) \<and>
     optimize (s2, l2) k = (res, (t2, l2 @ new)) \<and> alike P t1 t2"
proof -
  let ?sts = "all_steps [0 ..< nat k] (length (swarm s1))"
  from al have sw: "swarm s2 = swarm s1" by (auto simp: alike_def)
  have "\<forall>st \<in> set ?sts. snd st < length (swarm s1)" by (rule all_steps_in_range)
  from steps_run_alike [OF al this, of l1 l2] obtain r t1 t2 new where
    1: "steps_run ?sts (s1, l1) = (r, (t1, l1 @ new))"
    and 2: "steps_run ?sts (s2, l2) = (r, (t2, l2 @ new))"
    and al': "alike P t1 t2"
    by blast
  from al' have b: "global_best t2 = global_best t1"
    "global_best_score t2 = global_best_score t1"
    by (auto simp: alike_def)
  show ?thesis
  proof (cases r)
    case (Some e)
    with 1 2 sw have "optimize (s1, l1) k = (Inl e, (t1, l1 @ new))"
      and "optimize (s2, l2) k = (Inl e, (t2, l2 @ new))"
      by (simp_all add: optimize_by_steps)
    with al' show ?thesis by blast
  next
    case None
    with 1 2 sw b
    have "optimize (s1, l1) k =
        (Inr (global_best t1, global_best_score t1), (t1, l1 @ new))"
      and "optimize (s2, l2) k =
        (Inr (global_best t1, global_best_score t1), (t2, l2 @ new))"
      by (simp_all add: optimize_by_steps)
    with al' show ?thesis by blast
  qed
qed

lemma init_swarm_cong:
  assumes same: "\<forall>i < nat n. draws1 i mod length space = draws2 i mod length space"
    and i1: "SwarmAoT_init n space h1 u1 draws1 = Inr self1"
    and i2: "SwarmAoT_init n space h2 u2 draws2 = Inr self2"
  shows "swarm self1 = swarm self2"
proof -
  from same have "comprehension draws1 space [0 ..< nat n] =
      comprehension draws2 space [0 ..< nat n]"
    by (intro comprehension_cong) simp
  with i1 i2 show ?thesis
    by (auto simp: SwarmAoT_init_def initialize_swarm_def split: sum.splits)
qed

lemma wary_init:
  "SwarmAoT_init 2 [7, 4] (\<lambda>x. if x \<le> 7 then Inr (Fin x) else Inl (Raised ''high''))
     (\<lambda>x _. Inr (x - 1)) (\<lambda>k. k + 2) = Inr wary"
  by (simp add: SwarmAoT_init_def initialize_swarm_def choice_def upt_conv_Cons mod_Suc)

lemma wary_run:
  "optimize (wary, [Notified 9 9 (Fin 0)]) 2 =
     (Inr (Some 3, Fin 3),
      wary\<lparr>swarm := [5, 2], global_best := Some 3, global_best_score := Fin 3\<rparr>,
      [Notified 9 9 (Fin 0)] @
      [Evaluated 0 0 7 (Fin 7), Notified 0 0 (Fin 7), Moved 0 0 7 6,
       Evaluated 0 1 4 (Fin 4), Notified 0 1 (Fin 4), Moved 0 1 4 3,
       Evaluated 1 0 6 (Fin 6), Moved 1 0 6 5,
       Evaluated 1 1 3 (Fin 3), Notified 1 1 (Fin 3), Moved 1 1 3 2])"
  by (simp add: optimize_def Let_def upt_conv_Cons)

section \<open>The claims\<close>

text \<open>
  C1, as amended. A call of \<^verbatim>\<open>optimize\<close> that returns has evaluated the heuristic exactly
  \<open>iterations\<close> times the swarm's length (\<open>num_agents\<close>, for a constructed optimizer) times,
  and the score it returns is the minimum of the best score held when the call began and
  the scores computed in the call. Where the call began with the sentinel's infinite score
  (as on an optimizer the constructor has just left) and at least one evaluation was due,
  the returned score is the minimum of the scores computed: one of them, and none of them
  is smaller.
\<close>

theorem returned_score_is_minimum:
  assumes run: "optimize (self, log) k = (Inr (best, sc), (self', log'))"
  shows "\<exists>new. log' = log @ new \<and>
     length (evaluations new) = nat k * length (swarm self) \<and>
     sc = Min (insert (global_best_score self) (set (map snd (seen new)))) \<and>
     (global_best_score self = PInf \<and> 1 \<le> nat k * length (swarm self) \<longrightarrow>
        sc = Min (set (map snd (seen new))) \<and>
        sc \<in> set (map snd (seen new)) \<and>
        (\<forall>s \<in> set (map snd (seen new)). sc \<le> s)) \<and>
     (SwarmAoT_init n space h u draws = Inr self \<and> 1 \<le> nat k * nat n \<longrightarrow>
        length (evaluations new) = nat k * nat n \<and>
        sc = Min (set (map snd (seen new))))"
proof -
  from optimize_score_general [OF run] obtain new where
    n: "log' = log @ new"
    and m: "sc = Min (insert (global_best_score self) (set (map snd (seen new))))"
    and v: "visited new = all_steps [0 ..< nat k] (length (swarm self))"
    by blast
  let ?S = "set (map snd (seen new))"
  from v have len: "length (evaluations new) = nat k * length (swarm self)"
    using length_visited [of new] by (simp add: length_all_steps)
  have fresh: "sc = Min ?S \<and> sc \<in> ?S \<and> (\<forall>s \<in> ?S. sc \<le> s)"
    if inf: "global_best_score self = PInf" and some: "1 \<le> nat k * length (swarm self)"
  proof -
    from len some have "evaluations new \<noteq> []" by auto
    then have ne: "?S \<noteq> {}" by (simp add: seen_def)
    have fin: "finite ?S" by simp
    from m inf have "sc = Min (insert PInf ?S)" by simp
    with Min_with_PInf [OF ne fin] have eq: "sc = Min ?S" by simp
    from fin ne have "Min ?S \<in> ?S" by (rule Min_in)
    with eq have mem: "sc \<in> ?S" by simp
    from fin eq have low: "\<forall>s \<in> ?S. sc \<le> s" by simp
    from eq mem low show ?thesis by blast
  qed
  have built: "length (evaluations new) = nat k * nat n \<and> sc = Min ?S"
    if init: "SwarmAoT_init n space h u draws = Inr self" and some: "1 \<le> nat k * nat n"
  proof -
    from init_length [OF init] have l: "length (swarm self) = nat n" .
    from init_fresh [OF init] have "global_best_score self = PInf" by simp
    from fresh [OF this] some l len show ?thesis by simp
  qed
  from n len m fresh built show ?thesis by blast
qed

text \<open>
  The claim as it was stated fails on a second call: the optimizer \<open>ascent\<close> holds the
  best score 4 after one round, the second call of \<^verbatim>\<open>optimize\<close> computes the scores 8
  and 5 only, and returns 4, which is none of them and smaller than each.
\<close>

theorem later_call_score_counterexample:
  "SwarmAoT_init 2 [7, 4] (\<lambda>x. Inr (Fin x)) (\<lambda>x _. Inr (x + 1)) (\<lambda>k. k) = Inr ascent \<and>
   optimize (ascent, []) 1 =
     (Inr (Some 4, Fin 4),
      ascent\<lparr>swarm := [8, 5], global_best := Some 4, global_best_score := Fin 4\<rparr>,
      [Evaluated 0 0 7 (Fin 7), Notified 0 0 (Fin 7), Moved 0 0 7 8,
       Evaluated 0 1 4 (Fin 4), Notified 0 1 (Fin 4), Moved 0 1 4 5]) \<and>
   optimize (ascent\<lparr>swarm := [8, 5], global_best := Some 4, global_best_score := Fin 4\<rparr>,
      [Evaluated 0 0 7 (Fin 7), Notified 0 0 (Fin 7), Moved 0 0 7 8,
       Evaluated 0 1 4 (Fin 4), Notified 0 1 (Fin 4), Moved 0 1 4 5]) 1 =
     (Inr (Some 4, Fin 4),
      ascent\<lparr>swarm := [9, 6], global_best := Some 4, global_best_score := Fin 4\<rparr>,
      [Evaluated 0 0 7 (Fin 7), Notified 0 0 (Fin 7), Moved 0 0 7 8,
       Evaluated 0 1 4 (Fin 4), Notified 0 1 (Fin 4), Moved 0 1 4 5] @
      [Evaluated 0 0 8 (Fin 8), Moved 0 0 8 9, Evaluated 0 1 5 (Fin 5), Moved 0 1 5 6]) \<and>
   (1::int) \<le> 1 * num_agents ascent \<and>
   map snd (seen [Evaluated 0 0 8 (Fin 8), Moved 0 0 8 9,
                  Evaluated 0 1 5 (Fin (5::int)), Moved 0 1 5 6]) = [Fin 8, Fin 5] \<and>
   Min (set [Fin 8, Fin (5::int)]) = Fin 5 \<and>
   (Fin 4 :: int score) \<noteq> Min (set [Fin 8, Fin 5]) \<and>
   (Fin 4 :: int score) \<notin> set [Fin 8, Fin 5] \<and>
   (Fin 4 :: int score) < Fin 8 \<and> (Fin 4 :: int score) < Fin 5"
  by (simp add: SwarmAoT_init_def initialize_swarm_def choice_def optimize_def Let_def
      upt_conv_Cons seen_def)

theorem returned_score_is_minimum_witness:
  "optimize (descent, []) 2 =
     (Inr (Some 3, Fin 3),
      descent\<lparr>swarm := [5, 2], global_best := Some 3, global_best_score := Fin 3\<rparr>,
      [Evaluated 0 0 7 (Fin 7), Notified 0 0 (Fin 7), Moved 0 0 7 6,
       Evaluated 0 1 4 (Fin 4), Notified 0 1 (Fin 4), Moved 0 1 4 3,
       Evaluated 1 0 6 (Fin 6), Moved 1 0 6 5,
       Evaluated 1 1 3 (Fin 3), Notified 1 1 (Fin 3), Moved 1 1 3 2]) \<and>
   SwarmAoT_init 2 [7, 4] (\<lambda>x. Inr (Fin x)) (\<lambda>x _. Inr (x - 1)) (\<lambda>k. k) = Inr descent \<and>
   global_best_score descent = PInf \<and>
   (1::nat) \<le> nat 2 * length (swarm descent) \<and>
   (1::nat) \<le> nat 2 * nat 2 \<and>
   map snd (seen (snd (snd (optimize (descent, []) 2)))) = [Fin 7, Fin 4, Fin 6, Fin 3] \<and>
   length (evaluations (snd (snd (optimize (descent, []) 2)))) = nat 2 * nat 2 \<and>
   (Fin 3 :: int score) = Min (set [Fin 7, Fin 4, Fin 6, Fin 3]) \<and>
   (Fin 4 :: int score) = Min (insert (Fin 4) (set [Fin 8, Fin 5]))"
  using returned_score_is_minimum [OF descent_run, of 2 "[7, 4]" "\<lambda>x. Inr (Fin x)"
      "\<lambda>x _. Inr (x - 1)" "\<lambda>k. k"]
    returned_score_is_minimum [OF ascent_second_call, of 2 "[7, 4]" "\<lambda>x. Inr (Fin x)"
      "\<lambda>x _. Inr (x + 1)" "\<lambda>k. k"]
    descent_init
  by (simp add: descent_run seen_def)

text \<open>
  C2. The best score never goes up. For every \<open>k \<ge> 1\<close>, from the same state, the best
  score held after \<^verbatim>\<open>optimize(k)\<close> is at most the one held after \<^verbatim>\<open>optimize(k-1)\<close>
  (whether or not the calls end in an exception); it is at most the one held before the
  call; and no single step of an agent raises it.
\<close>

theorem best_score_monotone:
  assumes "1 \<le> k"
  shows "global_best_score (fst (snd (optimize w k)))
           \<le> global_best_score (fst (snd (optimize w (k - 1)))) \<and>
         global_best_score (fst (snd (optimize w k))) \<le> global_best_score (fst w) \<and>
         global_best_score (fst (snd (agent_step iteration agent_idx w)))
           \<le> global_best_score (fst w)"
proof -
  from assms have "nat k = Suc (nat (k - 1))" by simp
  then have upt: "[0 ..< nat k] = [0 ..< nat (k - 1)] @ [nat (k - 1)]" by simp
  obtain r1 w1 where r1: "rounds [0 ..< nat (k - 1)] w = (r1, w1)"
    by (cases "rounds [0 ..< nat (k - 1)] w")
  have "global_best_score (fst (snd (rounds [0 ..< nat k] w))) \<le> global_best_score (fst w1)"
  proof (cases r1)
    case (Some e)
    with r1 show ?thesis by (simp add: upt rounds_append)
  next
    case None
    with r1 have "rounds [0 ..< nat k] w = rounds [nat (k - 1)] w1"
      by (simp add: upt rounds_append)
    then show ?thesis using rounds_mono [of "[nat (k - 1)]" w1] by simp
  qed
  with r1 have a: "global_best_score (fst (snd (optimize w k)))
           \<le> global_best_score (fst (snd (optimize w (k - 1))))"
    by (simp add: optimize_state)
  have b: "global_best_score (fst (snd (optimize w k))) \<le> global_best_score (fst w)"
    by (simp add: optimize_state rounds_mono)
  obtain r w' where "agent_step iteration agent_idx w = (r, w')"
    by (cases "agent_step iteration agent_idx w")
  from agent_step_mono [OF this] this
  have c: "global_best_score (fst (snd (agent_step iteration agent_idx w)))
           \<le> global_best_score (fst w)"
    by simp
  from a b c show ?thesis by simp
qed

theorem best_score_monotone_witness:
  "(1::int) \<le> 2 \<and>
   global_best_score (fst (snd (optimize (descent, []) 2))) = Fin 3 \<and>
   global_best_score (fst (snd (optimize (descent, []) (2 - 1)))) = Fin 4 \<and>
   (Fin 3 :: int score) \<le> Fin 4 \<and>
   global_best_score (fst (snd (agent_step 0 0 (descent, [])))) = Fin 7 \<and>
   (Fin 7 :: int score) \<le> global_best_score descent"
  using best_score_monotone [of 2 "(descent, [])" 0 0]
  by (simp add: optimize_def Let_def upt_conv_Cons)

text \<open>
  C3. In a step whose evaluation returns the score \<open>sc\<close>, the best position and score
  become the agent's position and \<open>sc\<close> if \<open>sc\<close> is strictly below the best score held, and
  stay what they were otherwise (so an equal score changes nothing), whether or not the
  update function then raises. For a whole call that returns: the evaluations were made in
  the order of the iterations and, within one, of the agent indices; if the returned score
  is below the one held at the start, the returned position is that of the first
  evaluation with that score (all earlier ones scored strictly worse, no later one scored
  better); otherwise the best position and score at the start are returned unchanged.
\<close>

theorem strict_improvement_only:
  "(agent_step iteration agent_idx (self, log) = (r, (self', log')) \<and>
    heuristic self (swarm self ! agent_idx) = Inr sc \<longrightarrow>
      (global_best self', global_best_score self') =
        (if sc < global_best_score self then (Some (swarm self ! agent_idx), sc)
         else (global_best self, global_best_score self))) \<and>
   (optimize (self0, log0) k = (Inr (best, m), (self1, log0 @ new)) \<longrightarrow>
      visited new = all_steps [0 ..< nat k] (length (swarm self0)) \<and>
      (if m < global_best_score self0
       then \<exists>pre p post. seen new = pre @ (p, m) # post \<and>
              (\<forall>e \<in> set pre. m < snd e) \<and> (\<forall>e \<in> set post. m \<le> snd e) \<and>
              best = Some p
       else best = global_best self0 \<and> m = global_best_score self0))"
proof (intro conjI impI)
  assume "agent_step iteration agent_idx (self, log) = (r, (self', log')) \<and>
    heuristic self (swarm self ! agent_idx) = Inr sc"
  then show "(global_best self', global_best_score self') =
        (if sc < global_best_score self then (Some (swarm self ! agent_idx), sc)
         else (global_best self, global_best_score self))"
    using agent_step_best by blast
next
  assume run: "optimize (self0, log0) k = (Inr (best, m), (self1, log0 @ new))"
  from optimize_score_general [OF run]
  show "visited new = all_steps [0 ..< nat k] (length (swarm self0))"
    by auto
next
  assume run: "optimize (self0, log0) k = (Inr (best, m), (self1, log0 @ new))"
  let ?b = "(global_best self0, global_best_score self0)"
  from optimize_returns [OF run] have
    st: "steps_run (all_steps [0 ..< nat k] (length (swarm self0))) (self0, log0) =
           (None, (self1, log0 @ new))"
    and b: "best = global_best self1" and m: "m = global_best_score self1"
    by simp_all
  from steps_run_track [OF st] have "(global_best self1, global_best_score self1) =
       track ?b (seen new)"
    by auto
  with b m have t: "track ?b (seen new) = (best, m)" by simp
  show "if m < global_best_score self0
       then \<exists>pre p post. seen new = pre @ (p, m) # post \<and>
              (\<forall>e \<in> set pre. m < snd e) \<and> (\<forall>e \<in> set post. m \<le> snd e) \<and>
              best = Some p
       else best = global_best self0 \<and> m = global_best_score self0"
  proof (cases "m < global_best_score self0")
    case True
    with t have "snd (track ?b (seen new)) < snd ?b" by simp
    from track_first [OF this] t True show ?thesis by simp
  next
    case False
    with t have "\<not> snd (track ?b (seen new)) < snd ?b" by simp
    from track_unchanged [OF this] t False show ?thesis by simp
  qed
qed

theorem strict_improvement_only_witness:
  "agent_step 0 2 (tie\<lparr>global_best := Some (- 3), global_best_score := Fin 3\<rparr>, []) =
     (None, (tie\<lparr>global_best := Some (- 3), global_best_score := Fin 3\<rparr>,
             [Evaluated 0 2 3 (Fin 3), Moved 0 2 3 3])) \<and>
   \<not> (Fin 3 :: int score) < Fin 3 \<and>
   fst (optimize (tie, []) 2) = Inr (Some (- 3), Fin 3) \<and>
   (Fin 3 :: int score) < PInf \<and>
   seen (snd (snd (optimize (tie, []) 2))) =
     [(5, Fin 5)] @ (- 3, Fin 3) # [(3, Fin 3), (5, Fin 5), (- 3, Fin 3), (3, Fin 3)] \<and>
   visited (snd (snd (optimize (tie, []) 2))) = all_steps [0 ..< nat 2] (length (swarm tie))"
  using strict_improvement_only [where iteration = 0 and agent_idx = 2
      and self = "tie\<lparr>global_best := Some (- 3), global_best_score := Fin 3\<rparr>"
      and log = "[]" and r = None
      and self' = "tie\<lparr>global_best := Some (- 3), global_best_score := Fin 3\<rparr>"
      and log' = "[Evaluated 0 2 3 (Fin 3), Moved 0 2 3 3]" and sc = "Fin 3"
      and ?self0.0 = tie and ?log0.0 = "[]" and k = 2 and best = "Some (- 3)" and m = "Fin 3"
      and ?self1.0 = "tie\<lparr>global_best := Some (- 3), global_best_score := Fin 3\<rparr>"
      and new = "[Evaluated 0 0 5 (Fin 5), Notified 0 0 (Fin 5), Moved 0 0 5 5,
       Evaluated 0 1 (- 3) (Fin 3), Notified 0 1 (Fin 3), Moved 0 1 (- 3) (- 3),
       Evaluated 0 2 3 (Fin 3), Moved 0 2 3 3,
       Evaluated 1 0 5 (Fin 5), Moved 1 0 5 5,
       Evaluated 1 1 (- 3) (Fin 3), Moved 1 1 (- 3) (- 3),
       Evaluated 1 2 3 (Fin 3), Moved 1 2 3 3]"]
  by (simp add: tie_run Let_def seen_def visited_def all_steps_def upt_conv_Cons)

text \<open>
  C4. For an optimizer as the constructor leaves it, \<^verbatim>\<open>optimize(0)\<close> returns the sentinel
  pair (no position, positive infinity) and changes nothing: the object is the same
  (no swarm entry was replaced, so \<^verbatim>\<open>update_fn\<close> stored nothing) and the log is the same
  (no evaluation, no notification).
\<close>

theorem optimize_zero:
  assumes "SwarmAoT_init n space h u draws = Inr self"
  shows "optimize (self, log) 0 = (Inr (None, PInf), (self, log))"
  using init_fresh [OF assms] by (simp add: optimize_zero_any)

theorem optimize_zero_witness:
  "SwarmAoT_init 2 [7, 4] (\<lambda>x. Inr (Fin x)) (\<lambda>x _. Inr (x - 1)) (\<lambda>k. k) = Inr descent \<and>
   optimize (descent, []) 0 = (Inr (None, PInf), (descent, []))"
  using optimize_zero [OF descent_init, of "[]"] descent_init
  by simp

text \<open>
  C5. Where the heuristic returns \<open>sc\<close> for the agent's position and the update function
  returns \<open>q\<close> for it, the step evaluates the heuristic on the position the agent had
  when the step began, then (after a notification, if \<open>sc\<close> improved the best) stores \<open>q\<close>
  in the agent's place: the log of the step holds the evaluation of the old position
  before the move, and no evaluation of \<open>q\<close>. Conversely a step that completes has done
  exactly this. Where both functions return for every position of the swarm, a round
  completes, the positions evaluated are the swarm as it stood when the round began, agent
  by agent, each with the heuristic's score, and the swarm at the round's end holds their
  images under the update function. Conversely a round that completes evaluated exactly
  the swarm as it stood at its start.
\<close>

theorem evaluate_before_update:
  "(heuristic self (swarm self ! agent_idx) = Inr sc \<and>
    update_fn self (swarm self ! agent_idx) (problem_space self) = Inr q \<longrightarrow>
      agent_step iteration agent_idx (self, log) =
        (None,
         (self\<lparr>global_best := (if sc < global_best_score self
                                 then Some (swarm self ! agent_idx) else global_best self),
                global_best_score := (if sc < global_best_score self
                                 then sc else global_best_score self),
                swarm := (swarm self)[agent_idx := q]\<rparr>,
          log @ Evaluated iteration agent_idx (swarm self ! agent_idx) sc #
            (if sc < global_best_score self then [Notified iteration agent_idx sc] else []) @
            [Moved iteration agent_idx (swarm self ! agent_idx) q]))) \<and>
   (agent_step iteration agent_idx (self, log) = (None, (self', log')) \<longrightarrow>
      (\<exists>sc q. heuristic self (swarm self ! agent_idx) = Inr sc \<and>
         update_fn self (swarm self ! agent_idx) (problem_space self) = Inr q \<and>
         swarm self' = (swarm self)[agent_idx := q] \<and>
         log' = log @ Evaluated iteration agent_idx (swarm self ! agent_idx) sc #
            (if sc < global_best_score self then [Notified iteration agent_idx sc] else []) @
            [Moved iteration agent_idx (swarm self ! agent_idx) q])) \<and>
   ((\<forall>p \<in> set (swarm self0). heuristic self0 p = Inr (hs p) \<and>
        update_fn self0 p (problem_space self0) = Inr (uq p)) \<longrightarrow>
      (\<exists>self1 new. agents_loop iteration 0 (self0, log0) = (None, (self1, log0 @ new)) \<and>
         seen new = map (\<lambda>p. (p, hs p)) (swarm self0) \<and>
         swarm self1 = map uq (swarm self0))) \<and>
   (agents_loop iteration 0 (self0, log0) = (None, (self1, log0 @ new)) \<longrightarrow>
      map fst (seen new) = swarm self0 \<and>
      list_all2 (\<lambda>p q. update_fn self0 p (problem_space self0) = Inr q)
        (swarm self0) (swarm self1))"
proof (intro conjI impI)
  assume "heuristic self (swarm self ! agent_idx) = Inr sc \<and>
    update_fn self (swarm self ! agent_idx) (problem_space self) = Inr q"
  then have h: "heuristic self (swarm self ! agent_idx) = Inr sc"
    and u: "update_fn self (swarm self ! agent_idx) (problem_space self) = Inr q"
    by simp_all
  show "agent_step iteration agent_idx (self, log) =
        (None,
         (self\<lparr>global_best := (if sc < global_best_score self
                                 then Some (swarm self ! agent_idx) else global_best self),
                global_best_score := (if sc < global_best_score self
                                 then sc else global_best_score self),
                swarm := (swarm self)[agent_idx := q]\<rparr>,
          log @ Evaluated iteration agent_idx (swarm self ! agent_idx) sc #
            (if sc < global_best_score self then [Notified iteration agent_idx sc] else []) @
            [Moved iteration agent_idx (swarm self ! agent_idx) q]))"
    by (rule agent_step_returns [OF h u])
next
  assume "agent_step iteration agent_idx (self, log) = (None, (self', log'))"
  from agent_step_ok [OF this]
  show "\<exists>sc q. heuristic self (swarm self ! agent_idx) = Inr sc \<and>
         update_fn self (swarm self ! agent_idx) (problem_space self) = Inr q \<and>
         swarm self' = (swarm self)[agent_idx := q] \<and>
         log' = log @ Evaluated iteration agent_idx (swarm self ! agent_idx) sc #
            (if sc < global_best_score self then [Notified iteration agent_idx sc] else []) @
            [Moved iteration agent_idx (swarm self ! agent_idx) q]"
    by auto
next
  assume all: "\<forall>p \<in> set (swarm self0). heuristic self0 p = Inr (hs p) \<and>
        update_fn self0 p (problem_space self0) = Inr (uq p)"
  then have "\<forall>p \<in> set (drop 0 (swarm (fst (self0, log0)))).
      (\<exists>s. heuristic (fst (self0, log0)) p = Inr s) \<and>
      (\<exists>q. update_fn (fst (self0, log0)) p (problem_space (fst (self0, log0))) = Inr q)"
    by simp
  from agents_loop_completes [OF this, of iteration]
  obtain w' where run: "agents_loop iteration 0 (self0, log0) = (None, w')"
    by (cases "agents_loop iteration 0 (self0, log0)") auto
  from agents_loop_round [OF run] obtain new where
    n: "snd w' = log0 @ new"
    and p: "map fst (seen new) = swarm self0"
    and a: "list_all2 (\<lambda>p q. update_fn self0 p (problem_space self0) = Inr q)
       (swarm self0) (swarm (fst w'))"
    by auto
  from run n have run': "agents_loop iteration 0 (self0, log0) = (None, (fst w', log0 @ new))"
    by (cases w') simp
  from agents_loop_seen [OF run']
  have sc: "\<forall>e \<in> set (seen new). heuristic self0 (fst e) = Inr (snd e)" .
  have "\<forall>e \<in> set (seen new). snd e = hs (fst e)"
  proof
    fix e
    assume e: "e \<in> set (seen new)"
    then have "fst e \<in> set (map fst (seen new))" by simp
    with p all have "heuristic self0 (fst e) = Inr (hs (fst e))" by simp
    with sc e show "snd e = hs (fst e)" by simp
  qed
  then have "seen new = map (\<lambda>p. (p, hs p)) (map fst (seen new))"
    by (rule pairs_from_fst)
  with p have s: "seen new = map (\<lambda>p. (p, hs p)) (swarm self0)" by simp
  from all have "\<forall>p \<in> set (swarm self0). update_fn self0 p (problem_space self0) = Inr (uq p)"
    by simp
  with a have m: "swarm (fst w') = map uq (swarm self0)"
    by (rule list_all2_map_eq [where f = "\<lambda>p. update_fn self0 p (problem_space self0)"])
  from run' s m
  show "\<exists>self1 new. agents_loop iteration 0 (self0, log0) = (None, (self1, log0 @ new)) \<and>
         seen new = map (\<lambda>p. (p, hs p)) (swarm self0) \<and>
         swarm self1 = map uq (swarm self0)"
    by blast
next
  assume "agents_loop iteration 0 (self0, log0) = (None, (self1, log0 @ new))"
  from agents_loop_round [OF this]
  show "map fst (seen new) = swarm self0"
    by auto
next
  assume "agents_loop iteration 0 (self0, log0) = (None, (self1, log0 @ new))"
  from agents_loop_round [OF this]
  show "list_all2 (\<lambda>p q. update_fn self0 p (problem_space self0) = Inr q)
        (swarm self0) (swarm self1)"
    by auto
qed

theorem evaluate_before_update_witness:
  "heuristic descent (swarm descent ! 0) = Inr (Fin 7) \<and>
   update_fn descent (swarm descent ! 0) (problem_space descent) = Inr 6 \<and>
   agent_step 0 0 (descent, []) =
     (None, (descent\<lparr>swarm := [6, 4], global_best := Some 7, global_best_score := Fin 7\<rparr>,
             [Evaluated 0 0 7 (Fin 7), Notified 0 0 (Fin 7), Moved 0 0 7 6])) \<and>
   heuristic descent 7 = Inr (Fin 7) \<and> heuristic descent 4 = Inr (Fin 4) \<and>
   update_fn descent 7 (problem_space descent) = Inr (7 - 1) \<and>
   update_fn descent 4 (problem_space descent) = Inr (4 - 1) \<and>
   agents_loop 0 0 (descent, []) =
     (None, (descent\<lparr>swarm := [6, 3], global_best := Some 4, global_best_score := Fin 4\<rparr>,
             [] @ [Evaluated 0 0 7 (Fin 7), Notified 0 0 (Fin 7), Moved 0 0 7 6,
              Evaluated 0 1 4 (Fin 4), Notified 0 1 (Fin 4), Moved 0 1 4 3])) \<and>
   seen (snd (snd (agents_loop 0 0 (descent, [])))) = map (\<lambda>p. (p, Fin p)) (swarm descent) \<and>
   swarm (fst (snd (agents_loop 0 0 (descent, [])))) = map (\<lambda>p. p - 1) (swarm descent)"
  using evaluate_before_update [where iteration = 0 and agent_idx = 0 and self = descent
      and log = "[]" and sc = "Fin 7" and q = 6
      and self' = "descent\<lparr>swarm := [6, 4], global_best := Some 7, global_best_score := Fin 7\<rparr>"
      and log' = "[Evaluated 0 0 7 (Fin 7), Notified 0 0 (Fin 7), Moved 0 0 7 6]"
      and ?self0.0 = descent and ?log0.0 = "[]" and hs = "\<lambda>p. Fin p" and uq = "\<lambda>p. p - 1"
      and ?self1.0 = "descent\<lparr>swarm := [6, 3], global_best := Some 4, global_best_score := Fin 4\<rparr>"
      and new = "[Evaluated 0 0 7 (Fin 7), Notified 0 0 (Fin 7), Moved 0 0 7 6,
              Evaluated 0 1 4 (Fin 4), Notified 0 1 (Fin 4), Moved 0 1 4 3]"]
  by (simp add: descent_round Let_def seen_def)

text \<open>
  C6. For \<open>num_agents > 0\<close> the swarm has exactly \<open>num_agents\<close> entries after construction;
  a call of \<^verbatim>\<open>optimize\<close> with any number of rounds, a round from any state and a single
  agent step from any state all leave the swarm's length as it was, also when they end in
  an exception.
\<close>

theorem swarm_length_invariant:
  assumes init: "SwarmAoT_init n space h u draws = Inr self"
    and pos: "0 < n"
  shows "int (length (swarm self)) = n \<and>
     length (swarm (fst (snd (optimize (self, log) k)))) = length (swarm self) \<and>
     length (swarm (fst (snd (agents_loop iteration 0 w)))) = length (swarm (fst w)) \<and>
     length (swarm (fst (snd (agent_step iteration agent_idx w)))) = length (swarm (fst w))"
proof -
  from init_length [OF init] pos have a: "int (length (swarm self)) = n" by simp
  have b: "length (swarm (fst (snd (optimize (self, log) k)))) = length (swarm self)"
    using optimize_length [of "(self, log)" k] by simp
  have c: "length (swarm (fst (snd (agents_loop iteration 0 w)))) = length (swarm (fst w))"
    by (rule agents_loop_length)
  obtain r w' where "agent_step iteration agent_idx w = (r, w')"
    by (cases "agent_step iteration agent_idx w")
  from agent_step_length [OF this] this
  have d: "length (swarm (fst (snd (agent_step iteration agent_idx w)))) = length (swarm (fst w))"
    by simp
  from a b c d show ?thesis by simp
qed

theorem swarm_length_invariant_witness:
  "SwarmAoT_init 2 [7, 4] (\<lambda>x. Inr (Fin x)) (\<lambda>x _. Inr (x - 1)) (\<lambda>k. k) = Inr descent \<and>
   (0::int) < 2 \<and>
   int (length (swarm descent)) = 2 \<and>
   swarm (fst (snd (optimize (descent, []) 2))) = [5, 2] \<and>
   length (swarm (fst (snd (optimize (descent, []) 2)))) = length (swarm descent) \<and>
   length (swarm (fst (snd (agents_loop 0 0 (descent, []))))) = length (swarm descent) \<and>
   length (swarm (fst (snd (agent_step 0 0 (descent, []))))) = length (swarm descent)"
proof -
  have pos: "(0::int) < 2" by simp
  from swarm_length_invariant [OF descent_init pos, of "[]" 2 0 "(descent, [])" 0] descent_init
  show ?thesis
    by (simp add: descent_run)
qed

text \<open>
  C7, as amended. Let the steps of a call be split at a step \<open>(i, a)\<close>, the steps before it
  having completed. If the heuristic raises \<open>e\<close> at that step, \<^verbatim>\<open>optimize\<close> ends with \<open>e\<close>, and
  the object and the log are as the steps before left them. If the heuristic returns
  \<open>sc\<close> and the update function raises \<open>e\<close>, \<^verbatim>\<open>optimize\<close> ends with \<open>e\<close>, the swarm is as the
  steps before left it, and the best position and score and the log include this step's
  own evaluation (and its notification, if \<open>sc\<close> improved the best). In both cases no later
  step runs, and what the steps before left as best is the running best over exactly
  their evaluations.
\<close>

theorem failure_propagates:
  assumes steps: "all_steps [0 ..< nat k] (length (swarm self)) = pre @ (i, a) # post"
    and before: "steps_run pre (self, log) = (None, (self1, log1))"
  shows "(heuristic self1 (swarm self1 ! a) = Inl e \<longrightarrow>
            optimize (self, log) k = (Inl e, (self1, log1))) \<and>
         (heuristic self1 (swarm self1 ! a) = Inr sc \<and>
          update_fn self1 (swarm self1 ! a) (problem_space self1) = Inl e \<longrightarrow>
            optimize (self, log) k =
              (Inl e,
               (self1\<lparr>global_best := (if sc < global_best_score self1
                                         then Some (swarm self1 ! a) else global_best self1),
                       global_best_score := (if sc < global_best_score self1
                                         then sc else global_best_score self1)\<rparr>,
                log1 @ Evaluated i a (swarm self1 ! a) sc #
                  (if sc < global_best_score self1 then [Notified i a sc] else [])))) \<and>
         (\<exists>new1. log1 = log @ new1 \<and> visited new1 = pre \<and>
            (global_best self1, global_best_score self1) =
              track (global_best self, global_best_score self) (seen new1))"
proof (intro conjI impI)
  assume h: "heuristic self1 (swarm self1 ! a) = Inl e"
  then have "agent_step i a (self1, log1) = (Some e, (self1, log1))"
    by (simp add: Let_def)
  with before have "steps_run (pre @ (i, a) # post) (self, log) = (Some e, (self1, log1))"
    by (simp add: steps_run_append del: agent_step.simps)
  with steps show "optimize (self, log) k = (Inl e, (self1, log1))"
    by (simp add: optimize_raises)
next
  let ?s = "self1\<lparr>global_best := (if sc < global_best_score self1
                                         then Some (swarm self1 ! a) else global_best self1),
                       global_best_score := (if sc < global_best_score self1
                                         then sc else global_best_score self1)\<rparr>"
  let ?l = "log1 @ Evaluated i a (swarm self1 ! a) sc #
                  (if sc < global_best_score self1 then [Notified i a sc] else [])"
  assume hu: "heuristic self1 (swarm self1 ! a) = Inr sc \<and>
          update_fn self1 (swarm self1 ! a) (problem_space self1) = Inl e"
  then have "agent_step i a (self1, log1) = (Some e, (?s, ?l))"
    by (simp add: Let_def)
  with before have "steps_run (pre @ (i, a) # post) (self, log) = (Some e, (?s, ?l))"
    by (simp add: steps_run_append del: agent_step.simps)
  with steps show "optimize (self, log) k = (Inl e, (?s, ?l))"
    by (simp add: optimize_raises)
next
  from steps_run_track [OF before] obtain new1 where
    n: "log1 = log @ new1"
    and t: "(global_best self1, global_best_score self1) =
       track (global_best self, global_best_score self) (seen new1)"
    by blast
  from steps_run_visited [OF before] n have "visited new1 = pre" by auto
  with n t show "\<exists>new1. log1 = log @ new1 \<and> visited new1 = pre \<and>
            (global_best self1, global_best_score self1) =
              track (global_best self, global_best_score self) (seen new1)"
    by blast
qed

text \<open>
  The claim as it was stated fails where the update function raises: in the optimizer
  \<open>brittle\<close> the very first step fails, no evaluation lies strictly before it, and yet
  the best position and score held afterwards are those of the failing step's own
  evaluation, not the ones held before the step.
\<close>

theorem failing_step_evaluation_counterexample:
  "all_steps [0 ..< nat 1] (length (swarm brittle)) = [] @ (0, 0) # [(0, 1)] \<and>
   steps_run [] (brittle, []) = (None, (brittle, [])) \<and>
   update_fn brittle (swarm brittle ! 0) (problem_space brittle) = Inl (Raised ''stuck'') \<and>
   fst (optimize (brittle, []) 1) = Inl (Raised ''stuck'') \<and>
   (global_best (fst (snd (optimize (brittle, []) 1))),
    global_best_score (fst (snd (optimize (brittle, []) 1)))) = (Some 7, Fin 7) \<and>
   (global_best (fst (snd (optimize (brittle, []) 1))),
    global_best_score (fst (snd (optimize (brittle, []) 1)))) \<noteq>
     (global_best brittle, global_best_score brittle)"
  by (simp add: all_steps_def optimize_def Let_def upt_conv_Cons)

theorem failure_propagates_witness:
  "all_steps [0 ..< nat 1] (length (swarm picky)) = [(0, 0)] @ (0, 1) # [] \<and>
   steps_run [(0, 0)] (picky, []) =
     (None, (picky\<lparr>swarm := [6, 4], global_best := Some 7, global_best_score := Fin 7\<rparr>,
             [Evaluated 0 0 7 (Fin 7), Notified 0 0 (Fin 7), Moved 0 0 7 6])) \<and>
   heuristic picky 4 = Inl (Raised ''low'') \<and>
   optimize (picky, []) 1 =
     (Inl (Raised ''low''),
      (picky\<lparr>swarm := [6, 4], global_best := Some 7, global_best_score := Fin 7\<rparr>,
       [Evaluated 0 0 7 (Fin 7), Notified 0 0 (Fin 7), Moved 0 0 7 6])) \<and>
   all_steps [0 ..< nat 1] (length (swarm brittle)) = [] @ (0, 0) # [(0, 1)] \<and>
   steps_run [] (brittle, []) = (None, (brittle, [])) \<and>
   heuristic brittle 7 = Inr (Fin 7) \<and>
   update_fn brittle 7 (problem_space brittle) = Inl (Raised ''stuck'') \<and>
   optimize (brittle, []) 1 =
     (Inl (Raised ''stuck''),
      (brittle\<lparr>global_best := Some 7, global_best_score := Fin 7\<rparr>,
       [Evaluated 0 0 7 (Fin 7), Notified 0 0 (Fin 7)]))"
proof -
  have s1: "all_steps [0 ..< nat 1] (length (swarm picky)) = [(0, 0)] @ (0, 1) # []"
    by (simp add: all_steps_def upt_conv_Cons)
  have s2: "all_steps [0 ..< nat 1] (length (swarm brittle)) = [] @ (0, 0) # [(0, 1)]"
    by (simp add: all_steps_def upt_conv_Cons)
  have b2: "steps_run [] (brittle, []) = (None, (brittle, []))"
    by simp
  from failure_propagates [OF s1 picky_before, of "Raised ''low''" "Fin 0"]
    failure_propagates [OF s2 b2, of "Raised ''stuck''" "Fin 7"] s1 s2 picky_before
  show ?thesis
    by simp
qed

text \<open>
  C8. Take two optimizers built with the same \<open>num_agents\<close> and problem space, from
  generators whose draws select the same elements, and with heuristics and update
  functions that give the same results on every position a run can reach (a set \<open>P\<close> that
  holds the sampled swarm and is closed under the update function; in particular the very
  same two functions, with \<open>P\<close> all positions). Whatever each has printed before, a call of
  \<^verbatim>\<open>optimize\<close> with the same number of iterations ends alike on both: the same returned pair
  or the same exception, the same events appended in the same order, hence the same
  notifications, and the same swarm and best position and score left behind.
\<close>

theorem optimize_deterministic:
  assumes same: "\<forall>i < nat n. draws1 i mod length space = draws2 i mod length space"
    and i1: "SwarmAoT_init n space h1 u1 draws1 = Inr self1"
    and i2: "SwarmAoT_init n space h2 u2 draws2 = Inr self2"
    and start: "set (swarm self1) \<subseteq> P"
    and agree: "\<forall>p \<in> P. h1 p = h2 p \<and> u1 p space = u2 p space \<and>
                  (\<forall>q. u1 p space = Inr q \<longrightarrow> q \<in> P)"
  shows "\<exists>res t1 t2 new.
     optimize (self1, log1) k = (res, (t1, log1 @ new)) \<and>
     optimize (self2, log2) k = (res, (t2, log2 @ new)) \<and>
     notifications (log1 @ new) = notifications log1 @ notifications new \<and>
     notifications (log2 @ new) = notifications log2 @ notifications new \<and>
     swarm t1 = swarm t2 \<and> global_best t1 = global_best t2 \<and>
     global_best_score t1 = global_best_score t2"
proof -
  from init_swarm_cong [OF same i1 i2] have sw: "swarm self1 = swarm self2" .
  from init_fresh [OF i1] init_fresh [OF i2] sw start agree
  have "alike P self1 self2"
    by (auto simp: alike_def)
  from optimize_alike [OF this, of log1 k log2] obtain res t1 t2 new where
    1: "optimize (self1, log1) k = (res, (t1, log1 @ new))"
    and 2: "optimize (self2, log2) k = (res, (t2, log2 @ new))"
    and al: "alike P t1 t2"
    by blast
  from al have "swarm t1 = swarm t2" "global_best t1 = global_best t2"
    "global_best_score t1 = global_best_score t2"
    by (auto simp: alike_def)
  with 1 2 show ?thesis by auto
qed

theorem optimize_deterministic_witness:
  "SwarmAoT_init 2 [7, 4] (\<lambda>x. Inr (Fin x)) (\<lambda>x _. Inr (x - 1)) (\<lambda>k. k) = Inr descent \<and>
   SwarmAoT_init 2 [7, 4] (\<lambda>x. if x \<le> 7 then Inr (Fin x) else Inl (Raised ''high''))
     (\<lambda>x _. Inr (x - 1)) (\<lambda>k. k + 2) = Inr wary \<and>
   set (swarm descent) \<subseteq> {x. x \<le> 7} \<and>
   fst (optimize (descent, []) 2) = Inr (Some 3, Fin 3) \<and>
   fst (optimize (wary, [Notified 9 9 (Fin 0)]) 2) = Inr (Some 3, Fin 3) \<and>
   snd (snd (optimize (wary, [Notified 9 9 (Fin 0)]) 2)) =
     [Notified 9 9 (Fin 0)] @ snd (snd (optimize (descent, []) 2)) \<and>
   notifications (snd (snd (optimize (descent, []) 2))) =
     [(0, 0, Fin 7), (0, 1, Fin 4), (1, 1, Fin 3)] \<and>
   swarm (fst (snd (optimize (wary, [Notified 9 9 (Fin 0)]) 2))) =
     swarm (fst (snd (optimize (descent, []) 2)))"
proof -
  have same: "\<forall>i < nat 2. (\<lambda>k. k) i mod length [7::int, 4] = (\<lambda>k. k + 2) i mod length [7::int, 4]"
  proof (intro allI impI)
    fix i :: nat
    have len: "length [7::int, 4] = 2" by simp
    show "(\<lambda>k. k) i mod length [7::int, 4] = (\<lambda>k. k + 2) i mod length [7::int, 4]"
      by (simp only: len mod_add_self2)
  qed
  have start: "set (swarm descent) \<subseteq> {x. x \<le> 7}"
    by simp
  have agree: "\<forall>p \<in> {x. x \<le> 7}.
      (Inr (Fin p) :: error + int score) =
        (if p \<le> 7 then Inr (Fin p) else Inl (Raised ''high'')) \<and>
      (Inr (p - 1) :: error + int) = Inr (p - 1) \<and>
      (\<forall>q. (Inr (p - 1) :: error + int) = Inr q \<longrightarrow> q \<in> {x. x \<le> 7})"
    by auto
  from optimize_deterministic [OF same descent_init wary_init start agree,
      of "[]" 2 "[Notified 9 9 (Fin 0)]"] descent_init wary_init
  show ?thesis
    by (simp add: descent_run wary_run)
qed

text \<open>
  C9. Scenario A: one agent, the problem space holding only 5, the heuristic and the update
  function both the identity, three iterations. Whatever the generator draws, the agent
  starts at 5, \<^verbatim>\<open>optimize\<close> returns (5, 5), and the only notification is for iteration 0,
  agent 0.
\<close>

theorem scenario_A:
  "SwarmAoT_init 1 [5::int] (\<lambda>x. Inr (Fin x)) (\<lambda>x _. Inr x) draws =
     Inr \<lparr> num_agents = 1, problem_space = [5], heuristic = (\<lambda>x. Inr (Fin x)),
           update_fn = (\<lambda>x _. Inr x), swarm = [5], global_best = None,
           global_best_score = (PInf :: int score) \<rparr> \<and>
   fst (optimize (\<lparr> num_agents = 1, problem_space = [5::int], heuristic = (\<lambda>x. Inr (Fin x)),
           update_fn = (\<lambda>x _. Inr x), swarm = [5], global_best = None,
           global_best_score = (PInf :: int score) \<rparr>, []) 3) = Inr (Some 5, Fin 5) \<and>
   notifications (snd (snd (optimize (\<lparr> num_agents = 1, problem_space = [5::int],
           heuristic = (\<lambda>x. Inr (Fin x)), update_fn = (\<lambda>x _. Inr x), swarm = [5],
           global_best = None, global_best_score = (PInf :: int score) \<rparr>, []) 3))) =
     [(0, 0, Fin 5)]"
  by (simp add: SwarmAoT_init_def initialize_swarm_def choice_def optimize_def Let_def
      upt_conv_Cons)

text \<open>
  C10. After any call of \<^verbatim>\<open>optimize\<close> on an optimizer as the constructor leaves it
  (ended by a return or by an exception), if the best score is below infinity then a best
  position is held and the heuristic gives exactly the best score there; the heuristic
  itself is the one the optimizer was built with.
\<close>

theorem best_matches_heuristic:
  assumes init: "SwarmAoT_init n space h u draws = Inr self"
    and upd: "global_best_score (fst (snd (optimize (self, log) k))) < PInf"
  shows "\<exists>p. global_best (fst (snd (optimize (self, log) k))) = Some p \<and>
     h p = Inr (global_best_score (fst (snd (optimize (self, log) k)))) \<and>
     heuristic (fst (snd (optimize (self, log) k))) = h"
proof -
  let ?s = "fst (snd (optimize (self, log) k))"
  from init_fresh [OF init] have "consistent (fst (self, log))"
    by (simp add: consistent_def)
  then have c: "consistent ?s" by (rule optimize_consistent)
  from optimize_static [of "(self, log)" k] init_fresh [OF init] have h: "heuristic ?s = h"
    by simp
  from c upd h show ?thesis
    by (auto simp: consistent_def split: option.splits)
qed

theorem best_matches_heuristic_witness:
  "SwarmAoT_init 2 [7, 4] (\<lambda>x. Inr (Fin x)) (\<lambda>x _. Inr (x - 1)) (\<lambda>k. k) = Inr descent \<and>
   global_best_score (fst (snd (optimize (descent, []) 2))) = Fin 3 \<and>
   (Fin 3 :: int score) < PInf \<and>
   global_best (fst (snd (optimize (descent, []) 2))) = Some 3 \<and>
   heuristic (fst (snd (optimize (descent, []) 2))) 3 = Inr (Fin 3)"
proof -
  have upd: "global_best_score (fst (snd (optimize (descent, []) 2))) < PInf"
    by (simp add: descent_run)
  from best_matches_heuristic [OF descent_init upd] descent_init show ?thesis
    by (simp add: descent_run)
qed

end
